theory Spec2Isabelle
  imports Main
begin

section \<open>Data model\<close>

text \<open>
  The runner of \<^verbatim>\<open>index.js\<close> is event driven: \<^verbatim>\<open>run(command)\<close> builds a transform
  stage, \<^verbatim>\<open>stream._transform\<close> and \<^verbatim>\<open>stream.exec\<close> run synchronously and leave
  listeners and \<^verbatim>\<open>process.nextTick\<close> callbacks behind, and the runtime later delivers
  the events of the child processes. The model threads an explicit \<open>world\<close> through every
  call; objects that the code shares by reference (vinyl files, the environment map, streams)
  live in stores indexed by a reference.
\<close>

datatype error = ParseError | TypeError

text \<open>A node of the parse tree, with the three properties \<^verbatim>\<open>run\<close> reads.\<close>

datatype node = Node (textValue: string) (elements: "node list") (arg: "node option")

datatype stream_ref =
    ChildStdout nat
  | TeeStream nat string
  | CallerStream nat

datatype file_contents =
    CNull
  | CBuffer string
  | CStream stream_ref
  | COther string

record vinyl =
  contents :: file_contents
  path :: string

definition isNull :: "vinyl \<Rightarrow> bool" where
  "isNull f = (contents f = CNull)"

definition isStream :: "vinyl \<Rightarrow> bool" where
  "isStream f = (case contents f of CStream s \<Rightarrow> True | _ \<Rightarrow> False)"

definition isBuffer :: "vinyl \<Rightarrow> bool" where
  "isBuffer f = (case contents f of CBuffer b \<Rightarrow> True | _ \<Rightarrow> False)"

text \<open>
  What has been done to a child's stdin, in order. \<open>PipeFrom f c\<close>: the contents \<open>c\<close>
  of the file \<open>f\<close> were handed to it: a stream by \<^verbatim>\<open>contents.pipe(stdin)\<close>, a buffer by
  \<^verbatim>\<open>stdin.end(contents)\<close>; either way stdin ends after them. \<open>StdinEnd\<close>: it was ended with
  nothing written.
\<close>

datatype stdin_op = PipeFrom nat file_contents | StdinEnd

record child =
  c_cmd :: string
  c_args :: "string list"
  c_env :: "string \<rightharpoonup> string"
  c_stdin :: "stdin_op list"

datatype emitter = ChildProc nat | Stdout nat

datatype event_kind = EvReadable | EvEnd | EvError

text \<open>
  The two closures \<^verbatim>\<open>_transform\<close> registers on a child's stdout, with the variables they
  capture: the file (and, for the end handler, the stage and the \<^verbatim>\<open>done\<close> callback).
\<close>

datatype handler = OnReadable nat | OnEnd nat nat nat

text \<open>
  What \<^verbatim>\<open>process.nextTick\<close> is given: the \<^verbatim>\<open>done\<close> of an item (each call of the transform
  has its own, named by a number), or a callback internal to a stream.
\<close>

datatype callback = Done nat | StreamCallback

text \<open>
  The world: \<open>envs\<close> the environment objects and \<open>process_env\<close> the reference
  \<^verbatim>\<open>process.env\<close> holds; \<open>heap\<close> the vinyl files by reference and \<open>nfiles\<close> the next
  fresh one; \<open>nstreams\<close> the number of transforms created; \<open>procs\<close> the children spawned,
  a child's number being its position; \<open>listeners\<close> what \<^verbatim>\<open>on\<close> has registered and
  \<open>pipes\<close> what \<^verbatim>\<open>pipe\<close> has connected; \<open>pushed\<close> the files pushed, each with the
  transform it was pushed on; \<open>ticks\<close> the callbacks scheduled and \<open>done_log\<close> the
  \<^verbatim>\<open>done\<close> callbacks that have run; \<open>child_out\<close> the chunks the children's stdouts have
  delivered and \<open>tee_out\<close> those the tees have pushed; \<open>parent_stdout\<close> what was written
  to \<^verbatim>\<open>process.stdout\<close>; \<open>stage_errors\<close> the errors emitted on a stage (the source has
  no statement that emits one); \<open>uncaught\<close> the exceptions no one caught.
\<close>

record world =
  envs :: "nat \<Rightarrow> (string \<rightharpoonup> string)"
  process_env :: nat
  heap :: "nat \<Rightarrow> vinyl"
  nfiles :: nat
  nstreams :: nat
  procs :: "child list"
  listeners :: "(emitter \<times> event_kind \<times> handler) list"
  pipes :: "(nat \<times> stream_ref) list"
  pushed :: "(nat \<times> nat) list"
  ticks :: "callback list"
  done_log :: "nat list"
  child_out :: "(nat \<times> string) list"
  tee_out :: "(nat \<times> string) list"
  parent_stdout :: string
  stage_errors :: "(nat \<times> string) list"
  uncaught :: "string list"

text \<open>
  The closure variables of one \<^verbatim>\<open>run(command)\<close> call: \<^verbatim>\<open>stream\<close> (the reference of the
  transform), \<^verbatim>\<open>cmd\<close>, \<^verbatim>\<open>args\<close> and \<^verbatim>\<open>env\<close> (a reference to an environment object).
\<close>

record stage =
  s_id :: nat
  s_cmd :: string
  s_args :: "string list"
  s_env :: nat

section \<open>Runtime primitives\<close>

text \<open>String concatenation with a possibly undefined operand, as \<^verbatim>\<open>'x' + env.PATH\<close>.\<close>

definition js_str :: "string option \<Rightarrow> string" where
  "js_str v = (case v of None \<Rightarrow> ''undefined'' | Some s \<Rightarrow> s)"

text \<open>
  \<^verbatim>\<open>Buffer.concat(list, totalLength)\<close>: a buffer of exactly \<^verbatim>\<open>totalLength\<close> bytes, filled
  from the list in order.
\<close>

definition buffer_concat :: "string list \<Rightarrow> nat \<Rightarrow> string" where
  "buffer_concat bufs n = take n (concat bufs @ replicate n (CHR 0x00))"

definition new_transform :: "world \<Rightarrow> world \<times> nat" where
  "new_transform w = (w\<lparr>nstreams := Suc (nstreams w)\<rparr>, nstreams w)"

definition spawn :: "world \<Rightarrow> string \<Rightarrow> string list \<Rightarrow> nat \<Rightarrow> world \<times> nat" where
  "spawn w c as e =
     (w\<lparr>procs := procs w @ [\<lparr>c_cmd = c, c_args = as, c_env = envs w e, c_stdin = []\<rparr>]\<rparr>,
      length (procs w))"

text \<open>An operation on the stdin of a child that \<open>spawn\<close> returned.\<close>

definition stdin_do :: "world \<Rightarrow> nat \<Rightarrow> stdin_op \<Rightarrow> world" where
  "stdin_do w k op =
     (if k < length (procs w)
      then w\<lparr>procs := (procs w)[k := (procs w ! k)\<lparr>c_stdin := c_stdin (procs w ! k) @ [op]\<rparr>]\<rparr>
      else w)"

text \<open>
  \<^verbatim>\<open>file.pipe(child.stdin)\<close>, the method of the vinyl library: it has a branch for a stream
  (\<^verbatim>\<open>contents.pipe(stream)\<close>), one for a buffer (\<^verbatim>\<open>stream.end(contents)\<close>) and one for a
  null file (\<^verbatim>\<open>stream.end()\<close>); for any other contents it returns the stream untouched,
  so nothing is written to it and it is not ended.
\<close>

fun vinyl_pipe :: "nat \<Rightarrow> file_contents \<Rightarrow> stdin_op list" where
  "vinyl_pipe file (CStream s) = [PipeFrom file (CStream s)]"
| "vinyl_pipe file (CBuffer b) = [PipeFrom file (CBuffer b)]"
| "vinyl_pipe file CNull = [StdinEnd]"
| "vinyl_pipe file (COther x) = []"

definition file_pipe :: "world \<Rightarrow> nat \<Rightarrow> nat \<Rightarrow> world" where
  "file_pipe w file k =
     foldl (\<lambda>w' op. stdin_do w' k op) w (vinyl_pipe file (contents (heap w file)))"

definition set_contents :: "world \<Rightarrow> nat \<Rightarrow> file_contents \<Rightarrow> world" where
  "set_contents w file c = w\<lparr>heap := (heap w)(file := (heap w file)\<lparr>contents := c\<rparr>)\<rparr>"

definition push :: "world \<Rightarrow> nat \<Rightarrow> nat \<Rightarrow> world" where
  "push w s file = w\<lparr>pushed := pushed w @ [(s, file)]\<rparr>"

definition next_tick :: "world \<Rightarrow> callback \<Rightarrow> world" where
  "next_tick w cb = w\<lparr>ticks := ticks w @ [cb]\<rparr>"

definition on :: "world \<Rightarrow> emitter \<Rightarrow> event_kind \<Rightarrow> handler \<Rightarrow> world" where
  "on w em ev h = w\<lparr>listeners := listeners w @ [(em, ev, h)]\<rparr>"

definition new_vinyl :: "world \<Rightarrow> vinyl \<Rightarrow> world \<times> nat" where
  "new_vinyl w f = (w\<lparr>heap := (heap w)(nfiles w := f), nfiles := Suc (nfiles w)\<rparr>, nfiles w)"

section \<open>The stage: \<^verbatim>\<open>stream._transform\<close>\<close>

definition transform :: "stage \<Rightarrow> world \<Rightarrow> nat \<Rightarrow> nat \<Rightarrow> world" where
  "transform st w file d =
     (if isNull (heap w file) then next_tick (push w (s_id st) file) (Done d)
      else
        let (w1, k) = spawn w (s_cmd st) (s_args st) (s_env st);
            w2 = file_pipe w1 file k
        in if isStream (heap w2 file) then
             next_tick (push (set_contents w2 file (CStream (ChildStdout k))) (s_id st) file)
               (Done d)
           else if isBuffer (heap w2 file) then
             on (on (set_contents w2 file (CBuffer [])) (Stdout k) EvReadable (OnReadable file))
               (Stdout k) EvEnd (OnEnd (s_id st) file d)
           else w2)"

text \<open>
  The bodies of the two listeners. The \<^verbatim>\<open>readable\<close> listener receives what
  \<^verbatim>\<open>stdout.read()\<close> returned; on contents that are not a buffer \<^verbatim>\<open>Buffer.concat\<close> throws.
\<close>

fun handle :: "handler \<Rightarrow> string option \<Rightarrow> world \<Rightarrow> world" where
  "handle (OnReadable file) chunk w =
     (case chunk of
        None \<Rightarrow> w
      | Some c \<Rightarrow>
          (case contents (heap w file) of
             CBuffer b \<Rightarrow> set_contents w file (CBuffer (buffer_concat [b, c] (length b + length c)))
           | _ \<Rightarrow> w\<lparr>uncaught := uncaught w @ [''TypeError'']\<rparr>))"
| "handle (OnEnd s file d) chunk w = next_tick (push w s file) (Done d)"

section \<open>\<^verbatim>\<open>tee\<close> and \<^verbatim>\<open>stream.exec\<close>\<close>

definition tee :: "world \<Rightarrow> string \<Rightarrow> world \<times> stream_ref" where
  "tee w title = (let (w1, i) = new_transform w in (w1, TeeStream i title))"

text \<open>
  \<^verbatim>\<open>chunk.toString()\<close> as \<^verbatim>\<open>process.stdout.write\<close> sends it: the bytes of the chunk decoded
  as UTF-8 and encoded again. A well-formed sequence comes out as it went in; the runtime's
  decoder puts U+FFFD (the bytes EF BF BD) for every byte that cannot start a sequence and
  for every sequence cut short, by a byte out of range (which is then read again as a
  first byte) or by the end of the chunk. \<open>utf8_scan n lo hi pend\<close> reads on with \<open>n\<close>
  continuation bytes needed, the next one between \<open>lo\<close> and \<open>hi\<close>, and \<open>pend\<close> the bytes of
  the sequence so far.
\<close>

definition replacement :: string where
  "replacement = [CHR 0xEF, CHR 0xBF, CHR 0xBD]"

definition utf8_lead :: "nat \<Rightarrow> (nat \<times> nat \<times> nat) option" where
  "utf8_lead v =
     (if 0xC2 \<le> v \<and> v \<le> 0xDF then Some (1, 0x80, 0xBF)
      else if 0xE0 \<le> v \<and> v \<le> 0xEF then
        Some (2, if v = 0xE0 then 0xA0 else 0x80, if v = 0xED then 0x9F else 0xBF)
      else if 0xF0 \<le> v \<and> v \<le> 0xF4 then
        Some (3, if v = 0xF0 then 0x90 else 0x80, if v = 0xF4 then 0x8F else 0xBF)
      else None)"

fun utf8_scan :: "nat \<Rightarrow> nat \<Rightarrow> nat \<Rightarrow> string \<Rightarrow> string \<Rightarrow> string" where
  "utf8_scan n lo hi pend [] = (if n = 0 then [] else replacement)"
| "utf8_scan n lo hi pend (b # bs) =
     (if n = 0 then
        (if of_char b \<le> (0x7F :: nat) then b # utf8_scan 0 0x80 0xBF [] bs
         else
           (case utf8_lead (of_char b) of
              None \<Rightarrow> replacement @ utf8_scan 0 0x80 0xBF [] bs
            | Some (m, l, h) \<Rightarrow> utf8_scan m l h [b] bs))
      else if lo \<le> of_char b \<and> of_char b \<le> hi then
        (if n = 1 then pend @ b # utf8_scan 0 0x80 0xBF [] bs
         else utf8_scan (n - 1) 0x80 0xBF (pend @ [b]) bs)
      else replacement @ utf8_scan 0 0x80 0xBF [] (b # bs))"

definition to_string :: "string \<Rightarrow> string" where
  "to_string chunk = utf8_scan 0 0x80 0xBF [] chunk"

text \<open>
  \<^verbatim>\<open>tee(title)._transform\<close>: the title in brackets and the chunk as a string go to the
  parent's stdout, the chunk itself is pushed on.
\<close>

definition tee_transform :: "nat \<Rightarrow> string \<Rightarrow> string \<Rightarrow> world \<Rightarrow> world" where
  "tee_transform i title chunk w =
     next_tick
       (w\<lparr>parent_stdout := parent_stdout w @ (''['' @ title @ ''] '' @ to_string chunk),
          tee_out := tee_out w @ [(i, chunk)]\<rparr>)
       StreamCallback"

text \<open>\<^verbatim>\<open>src.pipe(dest)\<close> on a child's stdout; it returns the destination.\<close>

definition pipe :: "world \<Rightarrow> nat \<Rightarrow> stream_ref \<Rightarrow> world \<times> stream_ref" where
  "pipe w k dest = (w\<lparr>pipes := pipes w @ [(k, dest)]\<rparr>, dest)"

text \<open>
  \<^verbatim>\<open>exec_stream.end(file)\<close> writes the one item, which runs \<^verbatim>\<open>exec_stream._transform\<close> on
  it: push the file, schedule the callback.
\<close>

definition exec_stream_transform :: "nat \<Rightarrow> world \<Rightarrow> nat \<Rightarrow> world" where
  "exec_stream_transform x w file = next_tick (push w x file) StreamCallback"

definition exec :: "stage \<Rightarrow> world \<Rightarrow> bool \<Rightarrow> world \<times> nat" where
  "exec st w print =
     (let (w1, k) = spawn w (s_cmd st) (s_args st) (s_env st);
          w2 = stdin_do w1 k StdinEnd;
          (w3, c) = (if print then (let (w', t) = tee w2 (s_cmd st) in pipe w' k t)
                     else (w2, ChildStdout k));
          (w4, file) = new_vinyl w3 \<lparr>contents = CStream c, path = s_cmd st\<rparr>;
          (w5, x) = new_transform w4
      in (exec_stream_transform x w5 file, x))"

section \<open>Events delivered by the runtime\<close>

text \<open>
  \<open>Readable k r\<close>: the stdout of child \<open>k\<close> emits \<^verbatim>\<open>readable\<close> and \<^verbatim>\<open>stdout.read()\<close>
  returns \<open>r\<close>. \<open>End k\<close>: it emits \<^verbatim>\<open>end\<close>. \<open>Data k c\<close>: being piped, it hands the
  chunk \<open>c\<close> to its destinations. \<open>ChildError k e\<close>: the child emits \<^verbatim>\<open>error\<close>, as
  when it could not be spawned. \<open>Tick\<close>: the next scheduled callback runs.
\<close>

datatype event =
    Readable nat "string option"
  | End nat
  | Data nat string
  | ChildError nat string
  | Tick

definition handlers_of :: "world \<Rightarrow> emitter \<Rightarrow> event_kind \<Rightarrow> handler list" where
  "handlers_of w em ev =
     map (\<lambda>l. snd (snd l)) (filter (\<lambda>l. fst l = em \<and> fst (snd l) = ev) (listeners w))"

definition emit :: "world \<Rightarrow> emitter \<Rightarrow> event_kind \<Rightarrow> string option \<Rightarrow> world" where
  "emit w em ev a = foldl (\<lambda>w' h. handle h a w') w (handlers_of w em ev)"

fun stream_write :: "stream_ref \<Rightarrow> string \<Rightarrow> world \<Rightarrow> world" where
  "stream_write (TeeStream i title) chunk w = tee_transform i title chunk w"
| "stream_write s chunk w = w"

fun call :: "callback \<Rightarrow> world \<Rightarrow> world" where
  "call (Done d) w = w\<lparr>done_log := done_log w @ [d]\<rparr>"
| "call StreamCallback w = w"

text \<open>
  One event. An \<^verbatim>\<open>error\<close> event with no listener is thrown by the emitter (the rule of
  the runtime's event emitters); a tick runs the oldest scheduled callback.
\<close>

fun deliver :: "world \<Rightarrow> event \<Rightarrow> world" where
  "deliver w (Readable k chunk) =
     emit (case chunk of None \<Rightarrow> w | Some c \<Rightarrow> w\<lparr>child_out := child_out w @ [(k, c)]\<rparr>)
       (Stdout k) EvReadable chunk"
| "deliver w (End k) = emit w (Stdout k) EvEnd None"
| "deliver w (Data k chunk) =
     foldl (\<lambda>w' dest. stream_write dest chunk w') (w\<lparr>child_out := child_out w @ [(k, chunk)]\<rparr>)
       (map snd (filter (\<lambda>p. fst p = k) (pipes w)))"
| "deliver w (ChildError k e) =
     (if handlers_of w (ChildProc k) EvError = [] then w\<lparr>uncaught := uncaught w @ [e]\<rparr>
      else emit w (ChildProc k) EvError (Some e))"
| "deliver w Tick = (case ticks w of [] \<Rightarrow> w | cb # rest \<Rightarrow> call cb (w\<lparr>ticks := rest\<rparr>))"

definition run_events :: "world \<Rightarrow> event list \<Rightarrow> world" where
  "run_events w es = foldl deliver w es"

text \<open>What a stream has delivered so far, and what has been pushed on a transform.\<close>

fun delivered :: "world \<Rightarrow> stream_ref \<Rightarrow> string list" where
  "delivered w (ChildStdout k) = map snd (filter (\<lambda>p. fst p = k) (child_out w))"
| "delivered w (TeeStream i title) = map snd (filter (\<lambda>p. fst p = i) (tee_out w))"
| "delivered w (CallerStream n) = []"

definition items :: "world \<Rightarrow> nat \<Rightarrow> nat list" where
  "items w s = map snd (filter (\<lambda>p. fst p = s) (pushed w))"

section \<open>\<^verbatim>\<open>run(command)\<close>\<close>

text \<open>
  Reading \<^verbatim>\<open>a[i].p\<close> where \<^verbatim>\<open>a[i]\<close> is undefined throws a TypeError, and so does
  \<^verbatim>\<open>arg_node.arg.textValue\<close> on a node without \<^verbatim>\<open>arg\<close>.
\<close>

definition nth_node :: "node list \<Rightarrow> nat \<Rightarrow> error + node" where
  "nth_node ns i = (if i < length ns then Inr (ns ! i) else Inl TypeError)"

fun arg_texts :: "node list \<Rightarrow> error + string list" where
  "arg_texts [] = Inr []"
| "arg_texts (n # ns) =
     (case arg n of
        None \<Rightarrow> Inl TypeError
      | Some a \<Rightarrow> (case arg_texts ns of Inl e \<Rightarrow> Inl e | Inr as \<Rightarrow> Inr (textValue a # as)))"

text \<open>
  Lines 36 to 41: the program and the arguments read off the parse tree. The parser module
  is a parameter; a failed parse is its \<open>Inl\<close>.
\<close>

definition command_of :: "(string \<Rightarrow> error + node) \<Rightarrow> string \<Rightarrow> error + string \<times> string list" where
  "command_of parser command =
     (case parser command of
        Inl e \<Rightarrow> Inl e
      | Inr ast \<Rightarrow>
          (case nth_node (elements ast) 0 of
             Inl e \<Rightarrow> Inl e
           | Inr n0 \<Rightarrow>
               (case nth_node (elements ast) 2 of
                  Inl e \<Rightarrow> Inl e
                | Inr n2 \<Rightarrow>
                    (case arg_texts (elements n2) of
                       Inl e \<Rightarrow> Inl e
                     | Inr args \<Rightarrow> Inr (textValue n0, args)))))"

text \<open>
  \<^verbatim>\<open>var env = process.env\<close> copies the reference, so the assignment to \<^verbatim>\<open>env.PATH\<close>
  writes the object \<^verbatim>\<open>process.env\<close> refers to.
\<close>

definition run :: "(string \<Rightarrow> error + node) \<Rightarrow> world \<Rightarrow> string \<Rightarrow> error + world \<times> stage" where
  "run parser w command =
     (case command_of parser command of
        Inl e \<Rightarrow> Inl e
      | Inr (cmd, args) \<Rightarrow>
          let (w1, s) = new_transform w;
              env = process_env w1;
              w2 = w1\<lparr>envs := (envs w1)(env := (envs w1 env)(''PATH'' \<mapsto>
                     ''./node_modules/.bin:'' @ js_str (envs w1 env ''PATH'')))\<rparr>
          in Inr (w2, \<lparr>s_id = s, s_cmd = cmd, s_args = args, s_env = env\<rparr>))"

section \<open>The command grammar\<close>

text \<open>
  Modelled from the spec: the module \<^verbatim>\<open>./lib/command-parser\<close> that \<^verbatim>\<open>index.js\<close>
  requires is not among the sources. The definitions of this section follow the grammar of
  the specification, read as a parsing expression grammar (ordered choice, greedy
  repetition, the whole input consumed), and build the tree in the shape \<^verbatim>\<open>run\<close> reads: the
  root's elements are the program, the separating whitespace and the argument list; each
  element of the argument list carries under \<^verbatim>\<open>arg\<close> a node whose text is the resolved
  literal. An escaped character inside double quotes resolves to the character after the
  backslash.
\<close>

definition dquote :: char where
  "dquote = CHR 0x22"

definition squote :: char where
  "squote = CHR 0x27"

definition backslash :: char where
  "backslash = CHR 0x5C"

definition is_space :: "char \<Rightarrow> bool" where
  "is_space c = (c = CHR '' '' \<or> c = CHR 0x09)"

definition bare_char :: "char \<Rightarrow> bool" where
  "bare_char c = (\<not> is_space c \<and> c \<noteq> dquote \<and> c \<noteq> squote)"

text \<open>Each parser returns the resolved literal and the rest of the input.\<close>

definition bare :: "string \<Rightarrow> (string \<times> string) option" where
  "bare s = (if takeWhile bare_char s = [] then None
             else Some (takeWhile bare_char s, dropWhile bare_char s))"

definition quoted_single :: "string \<Rightarrow> (string \<times> string) option" where
  "quoted_single s =
     (case s of
        [] \<Rightarrow> None
      | c # r \<Rightarrow>
          if c = squote then
            (case dropWhile (\<lambda>x. x \<noteq> squote) r of
               [] \<Rightarrow> None
             | q # rest \<Rightarrow> Some (takeWhile (\<lambda>x. x \<noteq> squote) r, rest))
          else None)"

fun double_body :: "string \<Rightarrow> (string \<times> string) option" where
  "double_body [] = None"
| "double_body (c # r) =
     (if c = dquote then Some ([], r)
      else if c = backslash then
        (case r of
           [] \<Rightarrow> None
         | e # r' \<Rightarrow> map_option (\<lambda>(t, rest). (e # t, rest)) (double_body r'))
      else map_option (\<lambda>(t, rest). (c # t, rest)) (double_body r))"

definition quoted_double :: "string \<Rightarrow> (string \<times> string) option" where
  "quoted_double s =
     (case s of [] \<Rightarrow> None | c # r \<Rightarrow> if c = dquote then double_body r else None)"

definition argument :: "string \<Rightarrow> (string \<times> string) option" where
  "argument s =
     (case quoted_double s of
        Some r \<Rightarrow> Some r
      | None \<Rightarrow> (case quoted_single s of Some r \<Rightarrow> Some r | None \<Rightarrow> bare s))"

text \<open>The source text a parser consumed, given the input and what it left.\<close>

definition consumed :: "string \<Rightarrow> string \<Rightarrow> string" where
  "consumed s rest = take (length s - length rest) s"

text \<open>
  \<^verbatim>\<open>arglist := (SPACE* argument)*\<close>: one node for each argument, and the input left where
  no further argument matches.
\<close>

function arglist :: "string \<Rightarrow> node list \<times> string" where
  "arglist s =
     (case argument (dropWhile is_space s) of
        None \<Rightarrow> ([], s)
      | Some (t, rest) \<Rightarrow>
          (let (ns, r) = arglist rest
           in (Node (consumed s rest) [] (Some (Node t [] None)) # ns, r)))"
  by pat_completeness auto
termination
proof (relation "measure length")
  show "wf (measure length)" by simp
next
  fix s :: string and x2 :: "string \<times> string" and t rest :: string
  assume a: "argument (dropWhile is_space s) = Some x2" and x: "(t, rest) = x2"
  have db: "length r < length u" if "double_body u = Some (v, r)" for u v r
    using that
  proof (induction u arbitrary: v r rule: double_body.induct)
    case 1
    then show ?case by simp
  next
    case (2 c r0)
    then show ?case
      by (fastforce split: if_splits list.splits)
  qed
  have ba: "length r < length u" if "bare u = Some (v, r)" for u v r
  proof -
    from that have "takeWhile bare_char u \<noteq> []" and "r = dropWhile bare_char u"
      by (auto simp: bare_def split: if_splits)
    moreover have "length (takeWhile bare_char u) + length (dropWhile bare_char u) = length u"
      by (metis length_append takeWhile_dropWhile_id)
    ultimately show ?thesis by (cases "takeWhile bare_char u") auto
  qed
  have si: "length r < length u" if "quoted_single u = Some (v, r)" for u v r
  proof -
    from that obtain c u' q where u: "u = c # u'" and d: "dropWhile (\<lambda>x. x \<noteq> squote) u' = q # r"
      by (auto simp: quoted_single_def split: list.splits if_splits)
    have "length (dropWhile (\<lambda>x. x \<noteq> squote) u') \<le> length u'"
      by (rule length_dropWhile_le)
    with u d show ?thesis by simp
  qed
  have du: "length r < length u" if "quoted_double u = Some (v, r)" for u v r
    using that db by (fastforce simp: quoted_double_def split: list.splits if_splits)
  from a x have "length rest < length (dropWhile is_space s)"
    using du si ba by (auto simp: argument_def split: option.splits)
  moreover have "length (dropWhile is_space s) \<le> length s"
    by (rule length_dropWhile_le)
  ultimately show "(rest, s) \<in> measure length" by simp
qed

declare arglist.simps [simp del]

text \<open>\<^verbatim>\<open>command := program SPACE* arglist\<close>, then the end of the input.\<close>

definition parse :: "string \<Rightarrow> error + node" where
  "parse s =
     (case bare s of
        None \<Rightarrow> Inl ParseError
      | Some (p, r) \<Rightarrow>
          (let r1 = dropWhile is_space r;
               (args, r2) = arglist r1
           in if r2 = [] then
                Inr (Node s [Node p [] None, Node (consumed r r1) [] None, Node r1 args None] None)
              else Inl ParseError))"


section \<open>Well-formed command strings\<close>

text \<open>
  The grammar of the specification once more, this time as the command strings it derives
  and with its terminals written out, without reference to the parser above:

  \<^verbatim>\<open>command := program SPACE* arglist\<close>, \<^verbatim>\<open>arglist := (SPACE* argument)*\<close>,
  \<^verbatim>\<open>SPACE := ' ' | '\t'\<close>, \<^verbatim>\<open>argument := quoted_double | quoted_single | bare\<close>,
  \<^verbatim>\<open>quoted_double := '"' ( escaped_char | [^"\\] )* '"'\<close>, \<^verbatim>\<open>escaped_char := '\\' any_char\<close>,
  \<^verbatim>\<open>quoted_single := '\'' [^']* '\''\<close>; a program and a bare argument are one or more
  characters other than \<^verbatim>\<open>SPACE\<close> and the two quotes.

  A derivation is a program, the blanks after it, and the arguments, each with the blanks
  before it. An argument is a token of the specification's data model; a double-quoted one
  is kept as its items, each a plain character or an escaped one. The literal of a token is
  its text with the quoting removed, an escaped character standing for itself.
\<close>

definition space_char :: "char \<Rightarrow> bool" where
  "space_char c = (c = CHR '' '' \<or> c = CHR 0x09)"

definition word_char :: "char \<Rightarrow> bool" where
  "word_char c = (\<not> space_char c \<and> c \<noteq> CHR 0x22 \<and> c \<noteq> CHR 0x27)"

datatype quoted_item = Plain char | Escaped char

fun item_char :: "quoted_item \<Rightarrow> char" where
  "item_char (Plain c) = c"
| "item_char (Escaped c) = c"

fun item_source :: "quoted_item \<Rightarrow> string" where
  "item_source (Plain c) = [c]"
| "item_source (Escaped c) = [CHR 0x5C, c]"

fun well_formed_item :: "quoted_item \<Rightarrow> bool" where
  "well_formed_item (Plain c) = (c \<noteq> CHR 0x22 \<and> c \<noteq> CHR 0x5C)"
| "well_formed_item (Escaped c) = True"

datatype argument_token = Bare string | SingleQuoted string | DoubleQuoted "quoted_item list"

fun literal :: "argument_token \<Rightarrow> string" where
  "literal (Bare t) = t"
| "literal (SingleQuoted t) = t"
| "literal (DoubleQuoted its) = map item_char its"

fun source_text :: "argument_token \<Rightarrow> string" where
  "source_text (Bare t) = t"
| "source_text (SingleQuoted t) = CHR 0x27 # t @ [CHR 0x27]"
| "source_text (DoubleQuoted its) = CHR 0x22 # concat (map item_source its) @ [CHR 0x22]"

fun well_formed_token :: "argument_token \<Rightarrow> bool" where
  "well_formed_token (Bare t) = (t \<noteq> [] \<and> list_all word_char t)"
| "well_formed_token (SingleQuoted t) = list_all (\<lambda>c. c \<noteq> CHR 0x27) t"
| "well_formed_token (DoubleQuoted its) = list_all well_formed_item its"

fun is_bare :: "argument_token \<Rightarrow> bool" where
  "is_bare (Bare t) = True"
| "is_bare t = False"

definition well_formed_args :: "(string \<times> argument_token) list \<Rightarrow> bool" where
  "well_formed_args args =
     list_all (\<lambda>a. list_all space_char (fst a) \<and> well_formed_token (snd a)) args"

definition well_formed_command :: "string \<Rightarrow> string \<Rightarrow> (string \<times> argument_token) list \<Rightarrow> bool" where
  "well_formed_command p sp args =
     (p \<noteq> [] \<and> list_all word_char p \<and> list_all space_char sp \<and> well_formed_args args)"

definition args_text :: "(string \<times> argument_token) list \<Rightarrow> string" where
  "args_text args = concat (map (\<lambda>a. fst a @ source_text (snd a)) args)"

definition command_text :: "string \<Rightarrow> string \<Rightarrow> (string \<times> argument_token) list \<Rightarrow> string" where
  "command_text p sp args = p @ sp @ args_text args"

text \<open>
  The grammar lets a bare word stand directly before another one, with no blank between
  them; the command string is then the same as with the two written as one word. A
  derivation is separated when no bare argument follows a bare word (the program or a bare
  argument) directly: \<open>separated bare_before args\<close>.
\<close>

fun separated :: "bool \<Rightarrow> (string \<times> argument_token) list \<Rightarrow> bool" where
  "separated bare_before [] = True"
| "separated bare_before (a # args) =
     ((fst a \<noteq> [] \<or> \<not> bare_before \<or> \<not> is_bare (snd a)) \<and> separated (is_bare (snd a)) args)"

text \<open>
  The words of a derivation, in order: the literals of its tokens, bare words that stand
  directly one after another joined into one. \<open>open_words cur args\<close> has in \<open>cur\<close> the bare
  word that may still grow, if there is one. The first word of a command is its program,
  the others are its arguments.
\<close>

fun open_words :: "string option \<Rightarrow> (string \<times> argument_token) list \<Rightarrow> string list" where
  "open_words None [] = []"
| "open_words (Some a) [] = [a]"
| "open_words None ((sp, Bare b) # args) = open_words (Some b) args"
| "open_words None ((sp, t) # args) = literal t # open_words None args"
| "open_words (Some a) ((sp, Bare b) # args) =
     (if sp = [] then open_words (Some (a @ b)) args else a # open_words (Some b) args)"
| "open_words (Some a) ((sp, t) # args) = a # literal t # open_words None args"

definition command_words :: "string \<Rightarrow> string \<Rightarrow> (string \<times> argument_token) list \<Rightarrow> string list" where
  "command_words p sp args =
     (if sp = [] then open_words (Some p) args else p # open_words None args)"

text \<open>The command string \<^verbatim>\<open>name 'a b' "c\"d"\<close>, character by character.\<close>

definition example_command :: string where
  "example_command =
     [CHR ''n'', CHR ''a'', CHR ''m'', CHR ''e'', CHR '' '', CHR 0x27, CHR ''a'', CHR '' '',
      CHR ''b'', CHR 0x27, CHR '' '', CHR 0x22, CHR ''c'', CHR 0x5C, CHR 0x22, CHR ''d'', CHR 0x22]"

section \<open>Auxiliary notions for the statements\<close>

text \<open>The chunks a sequence of \<^verbatim>\<open>stdout.read()\<close> results holds (\<^verbatim>\<open>null\<close> is none).\<close>

fun chunks_read :: "string option list \<Rightarrow> string list" where
  "chunks_read [] = []"
| "chunks_read (None # cs) = chunks_read cs"
| "chunks_read (Some c # cs) = c # chunks_read cs"

text \<open>
  A world is well formed when every listener, pipe and output record is about a child that
  has been spawned, and every pushed item, every end listener's stage and every tee piped
  to is a stream that has been created.
\<close>

fun handler_stream_below :: "nat \<Rightarrow> handler \<Rightarrow> bool" where
  "handler_stream_below n (OnReadable file) = True"
| "handler_stream_below n (OnEnd s file d) = (s < n)"

fun stream_below :: "nat \<Rightarrow> stream_ref \<Rightarrow> bool" where
  "stream_below n (TeeStream i title) = (i < n)"
| "stream_below n s = True"

fun emitter_child :: "emitter \<Rightarrow> nat" where
  "emitter_child (ChildProc k) = k"
| "emitter_child (Stdout k) = k"

definition wf_world :: "world \<Rightarrow> bool" where
  "wf_world w =
     (list_all (\<lambda>l. emitter_child (fst l) < length (procs w)
                   \<and> handler_stream_below (nstreams w) (snd (snd l))) (listeners w) \<and>
      list_all (\<lambda>p. fst p < length (procs w) \<and> stream_below (nstreams w) (snd p)) (pipes w) \<and>
      list_all (\<lambda>p. fst p < length (procs w)) (child_out w) \<and>
      list_all (\<lambda>p. fst p < nstreams w) (tee_out w) \<and>
      list_all (\<lambda>p. fst p < nstreams w) (pushed w))"

text \<open>An event of a child's stdout is delivered only for a child that has been spawned.\<close>

fun event_ok :: "world \<Rightarrow> event \<Rightarrow> bool" where
  "event_ok w (Readable k chunk) = (k < length (procs w))"
| "event_ok w (Data k chunk) = (k < length (procs w))"
| "event_ok w e = True"

text \<open>The \<^verbatim>\<open>done\<close> callbacks among scheduled callbacks.\<close>

fun dones :: "callback list \<Rightarrow> nat list" where
  "dones [] = []"
| "dones (Done d # cs) = d # dones cs"
| "dones (StreamCallback # cs) = dones cs"

text \<open>The child \<^verbatim>\<open>child_process.spawn(cmd, args, {env: env})\<close> creates for a stage.\<close>

definition new_child :: "stage \<Rightarrow> world \<Rightarrow> stdin_op list \<Rightarrow> child" where
  "new_child st w ops =
     \<lparr>c_cmd = s_cmd st, c_args = s_args st, c_env = envs w (s_env st), c_stdin = ops\<rparr>"

section \<open>Sample inputs\<close>

text \<open>
  A process that has spawned nothing yet, holding four files: a null file, a buffer, a stream
  and a file whose contents are neither; and a stage for \<^verbatim>\<open>awk "NR % 2 == 0"\<close>.
\<close>

definition sample_files :: "nat \<Rightarrow> vinyl" where
  "sample_files n =
     (if n = 0 then \<lparr>contents = CNull, path = ''null.txt''\<rparr>
      else if n = 1 then \<lparr>contents = CBuffer ''1\<newline>2\<newline>3\<newline>4\<newline>'', path = ''buffer.txt''\<rparr>
      else if n = 2 then \<lparr>contents = CStream (CallerStream 0), path = ''stream.txt''\<rparr>
      else \<lparr>contents = COther ''text'', path = ''other.txt''\<rparr>)"

definition world0 :: world where
  "world0 =
     \<lparr>envs = (\<lambda>r. [''PATH'' \<mapsto> ''/usr/bin'']), process_env = 0, heap = sample_files,
      nfiles = 4, nstreams = 1, procs = [], listeners = [], pipes = [], pushed = [],
      ticks = [], done_log = [], child_out = [], tee_out = [], parent_stdout = [],
      stage_errors = [], uncaught = []\<rparr>"

definition stage0 :: stage where
  "stage0 = \<lparr>s_id = 0, s_cmd = ''awk'', s_args = [''NR % 2 == 0''], s_env = 0\<rparr>"

text \<open>
  The echo as the documentation of \<^verbatim>\<open>exec\<close> and the specification word it: every line of
  the output, up to and including its newline, preceded by the title in brackets and a
  space. It is what the claim about the echo is compared with, not a translation of the
  code.
\<close>

fun lines_of :: "string \<Rightarrow> string \<Rightarrow> string list" where
  "lines_of cur [] = (if cur = [] then [] else [cur])"
| "lines_of cur (c # cs) =
     (if c = CHR ''\<newline>'' then (cur @ [c]) # lines_of [] cs else lines_of (cur @ [c]) cs)"

definition prefix_lines :: "string \<Rightarrow> string \<Rightarrow> string" where
  "prefix_lines title out = concat (map (\<lambda>l. ''['' @ title @ ''] '' @ l) (lines_of [] out))"

text \<open>
  The sample world after one \<^verbatim>\<open>run(command)\<close>, and the stages \<^verbatim>\<open>run('seq 2')\<close> and
  \<^verbatim>\<open>run('echo Hello World')\<close> build in it.
\<close>

definition world1 :: world where
  "world1 = world0\<lparr>envs := (envs world0)(0 := [''PATH'' \<mapsto> ''./node_modules/.bin:/usr/bin'']),
                    nstreams := 2\<rparr>"

definition stage_seq :: stage where
  "stage_seq = \<lparr>s_id = 1, s_cmd = ''seq'', s_args = [''2''], s_env = 0\<rparr>"

definition stage_echo :: stage where
  "stage_echo = \<lparr>s_id = 1, s_cmd = ''echo'', s_args = [''Hello'', ''World''], s_env = 0\<rparr>"

section \<open>Facts about the runtime primitives\<close>

lemma buffer_concat_pair: "buffer_concat [b, c] (length b + length c) = b @ c"
  by (simp add: buffer_concat_def)

lemma transform_null:
  "isNull (heap w file) \<Longrightarrow>
   transform st w file d = w\<lparr>pushed := pushed w @ [(s_id st, file)], ticks := ticks w @ [Done d]\<rparr>"
  by (simp add: transform_def push_def next_tick_def)

lemma transform_stream:
  "contents (heap w file) = CStream s \<Longrightarrow>
   transform st w file d =
     w\<lparr>procs := procs w @ [new_child st w [PipeFrom file (CStream s)]],
       heap := (heap w)(file := (heap w file)\<lparr>contents := CStream (ChildStdout (length (procs w)))\<rparr>),
       pushed := pushed w @ [(s_id st, file)],
       ticks := ticks w @ [Done d]\<rparr>"
  by (simp add: transform_def isNull_def isStream_def spawn_def file_pipe_def stdin_do_def
      set_contents_def push_def next_tick_def new_child_def)

lemma transform_buffer:
  "contents (heap w file) = CBuffer b \<Longrightarrow>
   transform st w file d =
     w\<lparr>procs := procs w @ [new_child st w [PipeFrom file (CBuffer b)]],
       heap := (heap w)(file := (heap w file)\<lparr>contents := CBuffer []\<rparr>),
       listeners := listeners w @
         [(Stdout (length (procs w)), EvReadable, OnReadable file),
          (Stdout (length (procs w)), EvEnd, OnEnd (s_id st) file d)]\<rparr>"
  by (simp add: transform_def isNull_def isStream_def isBuffer_def spawn_def file_pipe_def
      stdin_do_def set_contents_def on_def new_child_def)

lemma transform_other:
  "contents (heap w file) = COther x \<Longrightarrow>
   transform st w file d = w\<lparr>procs := procs w @ [new_child st w []]\<rparr>"
  by (simp add: transform_def isNull_def isStream_def isBuffer_def spawn_def file_pipe_def
      stdin_do_def new_child_def)

lemma run_ticks:
  "run_events w (replicate (length (ticks w)) Tick)
     = w\<lparr>ticks := [], done_log := done_log w @ dones (ticks w)\<rparr>"
proof (induction "ticks w" arbitrary: w)
  case Nil
  then show ?case by (simp add: run_events_def)
next
  case (Cons cb cbs)
  from Cons.hyps(2) have t: "ticks w = cb # cbs" by simp
  have step: "deliver w Tick = call cb (w\<lparr>ticks := cbs\<rparr>)"
    by (simp add: t)
  have "cbs = ticks (call cb (w\<lparr>ticks := cbs\<rparr>))"
    by (cases cb) simp_all
  from Cons.hyps(1) [OF this] show ?case
    by (cases cb) (simp_all add: t run_events_def)
qed


lemma handlers_of_listeners:
  "listeners w' = listeners w \<Longrightarrow> handlers_of w' em ev = handlers_of w em ev"
  by (simp add: handlers_of_def)

lemma deliver_readable:
  assumes "handlers_of w (Stdout k) EvReadable = [OnReadable file]"
      and "contents (heap w file) = CBuffer acc"
  shows "deliver w (Readable k chunk) =
           (case chunk of
              None \<Rightarrow> w
            | Some c \<Rightarrow> w\<lparr>child_out := child_out w @ [(k, c)],
                          heap := (heap w)(file := (heap w file)\<lparr>contents := CBuffer (acc @ c)\<rparr>)\<rparr>)"
proof (cases chunk)
  case None
  then show ?thesis
    using assms(1) by (simp add: emit_def)
next
  case (Some c)
  let ?w = "w\<lparr>child_out := child_out w @ [(k, c)]\<rparr>"
  have "handlers_of ?w (Stdout k) EvReadable = [OnReadable file]"
    using assms(1) handlers_of_listeners [of ?w w] by simp
  then have "emit ?w (Stdout k) EvReadable (Some c) = handle (OnReadable file) (Some c) ?w"
    by (simp add: emit_def)
  then show ?thesis
    using assms(2) Some by (simp add: set_contents_def buffer_concat_pair)
qed

lemma run_readables:
  assumes "handlers_of w (Stdout k) EvReadable = [OnReadable file]"
      and "contents (heap w file) = CBuffer acc"
  shows "run_events w (map (Readable k) chunks) =
           w\<lparr>child_out := child_out w @ map (Pair k) (chunks_read chunks),
             heap := (heap w)(file := (heap w file)\<lparr>contents := CBuffer (acc @ concat (chunks_read chunks))\<rparr>)\<rparr>"
  using assms
proof (induction chunks arbitrary: w acc)
  case Nil
  then have "(heap w file)\<lparr>contents := CBuffer acc\<rparr> = heap w file"
    by (metis vinyl.surjective vinyl.update_convs(1))
  then show ?case by (simp add: run_events_def)
next
  case (Cons chunk chunks)
  show ?case
  proof (cases chunk)
    case None
    have "deliver w (Readable k chunk) = w"
      by (simp only: deliver_readable [OF Cons.prems] None option.case)
    then have "run_events w (map (Readable k) (chunk # chunks)) = run_events w (map (Readable k) chunks)"
      by (simp add: run_events_def)
    then show ?thesis
      using Cons.IH [OF Cons.prems] None by simp
  next
    case (Some c)
    let ?w = "w\<lparr>child_out := child_out w @ [(k, c)],
                heap := (heap w)(file := (heap w file)\<lparr>contents := CBuffer (acc @ c)\<rparr>)\<rparr>"
    have d: "deliver w (Readable k chunk) = ?w"
      by (simp only: deliver_readable [OF Cons.prems] Some option.case)
    have h: "handlers_of ?w (Stdout k) EvReadable = [OnReadable file]"
      using Cons.prems(1) by (simp add: handlers_of_def)
    have c: "contents (heap ?w file) = CBuffer (acc @ c)"
      by simp
    have r: "run_events w (map (Readable k) (chunk # chunks)) = run_events ?w (map (Readable k) chunks)"
      using d by (simp add: run_events_def)
    have eq: "?w\<lparr>child_out := child_out ?w @ map (Pair k) (chunks_read chunks),
             heap := (heap ?w)(file := (heap ?w file)\<lparr>contents :=
               CBuffer ((acc @ c) @ concat (chunks_read chunks))\<rparr>)\<rparr>
          = w\<lparr>child_out := child_out w @ map (Pair k) (chunks_read (chunk # chunks)),
              heap := (heap w)(file := (heap w file)\<lparr>contents :=
                CBuffer (acc @ concat (chunks_read (chunk # chunks)))\<rparr>)\<rparr>"
      by (rule world.equality) (simp_all add: Some fun_eq_iff)
    note r
    also have "run_events ?w (map (Readable k) chunks) =
        ?w\<lparr>child_out := child_out ?w @ map (Pair k) (chunks_read chunks),
             heap := (heap ?w)(file := (heap ?w file)\<lparr>contents :=
               CBuffer ((acc @ c) @ concat (chunks_read chunks))\<rparr>)\<rparr>"
      by (rule Cons.IH [OF h c])
    also note eq
    finally show ?thesis .
  qed
qed

lemma handle_procs: "handle h a (v\<lparr>procs := p\<rparr>) = (handle h a v)\<lparr>procs := p\<rparr>"
proof (cases h)
  case (OnReadable f)
  show ?thesis
  proof (cases a)
    case None
    then show ?thesis by (simp add: OnReadable)
  next
    case (Some c)
    then show ?thesis
      by (cases "contents (heap v f)") (simp_all add: OnReadable set_contents_def)
  qed
next
  case (OnEnd s f d)
  then show ?thesis by (simp add: push_def next_tick_def)
qed

lemma emit_procs: "emit (v\<lparr>procs := p\<rparr>) m ev a = (emit v m ev a)\<lparr>procs := p\<rparr>"
proof -
  have "foldl (\<lambda>w' h. handle h a w') (u\<lparr>procs := p\<rparr>) hs
          = (foldl (\<lambda>w' h. handle h a w') u hs)\<lparr>procs := p\<rparr>" for u hs
  proof (induction hs arbitrary: u)
    case Nil
    show ?case by simp
  next
    case (Cons h hs)
    have "foldl (\<lambda>w' h. handle h a w') (u\<lparr>procs := p\<rparr>) (h # hs)
            = foldl (\<lambda>w' h. handle h a w') ((handle h a u)\<lparr>procs := p\<rparr>) hs"
      by (simp only: foldl.simps handle_procs)
    also have "\<dots> = (foldl (\<lambda>w' h. handle h a w') (handle h a u) hs)\<lparr>procs := p\<rparr>"
      by (rule Cons.IH)
    finally show ?case by (simp only: foldl.simps)
  qed
  moreover have "handlers_of (v\<lparr>procs := p\<rparr>) m ev = handlers_of v m ev"
    by (simp add: handlers_of_def)
  ultimately show ?thesis by (simp only: emit_def)
qed

lemma stream_write_procs:
  "stream_write s c (v\<lparr>procs := p\<rparr>) = (stream_write s c v)\<lparr>procs := p\<rparr>"
  by (cases s) (simp_all add: tee_transform_def next_tick_def)

lemma writes_procs:
  "foldl (\<lambda>w' dest. stream_write dest c w') (v\<lparr>procs := p\<rparr>) ds
     = (foldl (\<lambda>w' dest. stream_write dest c w') v ds)\<lparr>procs := p\<rparr>"
proof (induction ds arbitrary: v)
  case Nil
  show ?case by simp
next
  case (Cons d ds)
  have "foldl (\<lambda>w' dest. stream_write dest c w') (v\<lparr>procs := p\<rparr>) (d # ds)
          = foldl (\<lambda>w' dest. stream_write dest c w') ((stream_write d c v)\<lparr>procs := p\<rparr>) ds"
    by (simp only: foldl.simps stream_write_procs)
  also have "\<dots> = (foldl (\<lambda>w' dest. stream_write dest c w') (stream_write d c v) ds)\<lparr>procs := p\<rparr>"
    by (rule Cons.IH)
  finally show ?case by (simp only: foldl.simps)
qed

lemma call_procs: "call cb (v\<lparr>procs := p\<rparr>) = (call cb v)\<lparr>procs := p\<rparr>"
  by (cases cb) simp_all

lemma deliver_procs: "deliver (w\<lparr>procs := p\<rparr>) e = (deliver w e)\<lparr>procs := p\<rparr>"
proof (cases e)
  case (Readable k chunk)
  show ?thesis
  proof (cases chunk)
    case None
    have "deliver (w\<lparr>procs := p\<rparr>) e = emit (w\<lparr>procs := p\<rparr>) (Stdout k) EvReadable None"
      by (simp add: Readable None)
    also have "\<dots> = (emit w (Stdout k) EvReadable None)\<lparr>procs := p\<rparr>"
      by (rule emit_procs)
    also have "\<dots> = (deliver w e)\<lparr>procs := p\<rparr>"
      by (simp add: Readable None)
    finally show ?thesis .
  next
    case (Some c)
    let ?v = "w\<lparr>child_out := child_out w @ [(k, c)]\<rparr>"
    have eq: "w\<lparr>procs := p, child_out := child_out w @ [(k, c)]\<rparr> = ?v\<lparr>procs := p\<rparr>"
      by (rule world.equality) simp_all
    have "deliver (w\<lparr>procs := p\<rparr>) e
            = emit (w\<lparr>procs := p, child_out := child_out w @ [(k, c)]\<rparr>) (Stdout k) EvReadable (Some c)"
      by (simp add: Readable Some)
    also have "\<dots> = emit (?v\<lparr>procs := p\<rparr>) (Stdout k) EvReadable (Some c)"
      by (simp only: eq)
    also have "\<dots> = (emit ?v (Stdout k) EvReadable (Some c))\<lparr>procs := p\<rparr>"
      by (rule emit_procs)
    also have "\<dots> = (deliver w e)\<lparr>procs := p\<rparr>"
      by (simp add: Readable Some)
    finally show ?thesis .
  qed
next
  case (End k)
  have "deliver (w\<lparr>procs := p\<rparr>) e = emit (w\<lparr>procs := p\<rparr>) (Stdout k) EvEnd None"
    by (simp add: End)
  also have "\<dots> = (emit w (Stdout k) EvEnd None)\<lparr>procs := p\<rparr>"
    by (rule emit_procs)
  also have "\<dots> = (deliver w e)\<lparr>procs := p\<rparr>"
    by (simp add: End)
  finally show ?thesis .
next
  case (Data k chunk)
  let ?v = "w\<lparr>child_out := child_out w @ [(k, chunk)]\<rparr>"
  let ?ds = "map snd (filter (\<lambda>q. fst q = k) (pipes w))"
  have eq: "w\<lparr>procs := p, child_out := child_out w @ [(k, chunk)]\<rparr> = ?v\<lparr>procs := p\<rparr>"
    by (rule world.equality) simp_all
  have "deliver (w\<lparr>procs := p\<rparr>) e
          = foldl (\<lambda>w' dest. stream_write dest chunk w')
              (w\<lparr>procs := p, child_out := child_out w @ [(k, chunk)]\<rparr>) ?ds"
    by (simp add: Data)
  also have "\<dots> = foldl (\<lambda>w' dest. stream_write dest chunk w') (?v\<lparr>procs := p\<rparr>) ?ds"
    by (simp only: eq)
  also have "\<dots> = (foldl (\<lambda>w' dest. stream_write dest chunk w') ?v ?ds)\<lparr>procs := p\<rparr>"
    by (rule writes_procs)
  also have "\<dots> = (deliver w e)\<lparr>procs := p\<rparr>"
    by (simp add: Data)
  finally show ?thesis .
next
  case (ChildError k err)
  have h: "handlers_of (w\<lparr>procs := p\<rparr>) (ChildProc k) EvError = handlers_of w (ChildProc k) EvError"
    by (simp add: handlers_of_def)
  show ?thesis
  proof (cases "handlers_of w (ChildProc k) EvError = []")
    case True
    then show ?thesis
      using h by (simp add: ChildError)
  next
    case False
    have "deliver (w\<lparr>procs := p\<rparr>) e = emit (w\<lparr>procs := p\<rparr>) (ChildProc k) EvError (Some err)"
      using h False by (simp add: ChildError)
    also have "\<dots> = (emit w (ChildProc k) EvError (Some err))\<lparr>procs := p\<rparr>"
      by (rule emit_procs)
    also have "\<dots> = (deliver w e)\<lparr>procs := p\<rparr>"
      using False by (simp add: ChildError)
    finally show ?thesis .
  qed
next
  case Tick
  show ?thesis
  proof (cases "ticks w")
    case Nil
    then show ?thesis by (simp add: Tick)
  next
    case (Cons cb rest)
    have eq: "w\<lparr>procs := p, ticks := rest\<rparr> = (w\<lparr>ticks := rest\<rparr>)\<lparr>procs := p\<rparr>"
      by (rule world.equality) simp_all
    have "deliver (w\<lparr>procs := p\<rparr>) e = call cb (w\<lparr>procs := p, ticks := rest\<rparr>)"
      by (simp add: Tick Cons)
    also have "\<dots> = call cb ((w\<lparr>ticks := rest\<rparr>)\<lparr>procs := p\<rparr>)"
      by (simp only: eq)
    also have "\<dots> = (call cb (w\<lparr>ticks := rest\<rparr>))\<lparr>procs := p\<rparr>"
      by (rule call_procs)
    also have "\<dots> = (deliver w e)\<lparr>procs := p\<rparr>"
      by (simp add: Tick Cons)
    finally show ?thesis .
  qed
qed

lemma run_events_procs: "run_events (w\<lparr>procs := p\<rparr>) es = (run_events w es)\<lparr>procs := p\<rparr>"
  by (induction es arbitrary: w) (simp_all add: run_events_def deliver_procs)


lemma wf_no_handlers:
  assumes "wf_world w" "length (procs w) \<le> k"
  shows "handlers_of w (Stdout k) ev = []"
proof -
  have "list_all (\<lambda>l. emitter_child (fst l) < length (procs w)) (listeners w)"
    using assms(1) by (simp add: wf_world_def list_all_iff)
  then have "filter (\<lambda>l. fst l = Stdout k \<and> fst (snd l) = ev) (listeners w) = []"
    using assms(2) by (auto simp: filter_empty_conv list_all_iff)
  then show ?thesis by (simp add: handlers_of_def)
qed

lemma wf_old_records:
  assumes "wf_world w"
  shows "length (procs w) \<le> k \<Longrightarrow> filter (\<lambda>p. fst p = k) (pipes w) = []"
    and "length (procs w) \<le> k \<Longrightarrow> filter (\<lambda>p. fst p = k) (child_out w) = []"
    and "nstreams w \<le> n \<Longrightarrow> filter (\<lambda>p. fst p = n) (tee_out w) = []"
    and "nstreams w \<le> n \<Longrightarrow> filter (\<lambda>p. fst p = n) (pushed w) = []"
  using assms by (auto simp: wf_world_def filter_empty_conv list_all_iff)

lemma dones_append: "dones (xs @ ys) = dones xs @ dones ys"
  by (induction xs rule: dones.induct) simp_all

section \<open>Facts about the command grammar\<close>

lemma space_char_is_space: "space_char c = is_space c"
  by (simp add: space_char_def is_space_def)

lemma word_char_bare_char: "word_char c = bare_char c"
  by (simp add: word_char_def bare_char_def space_char_is_space dquote_def squote_def)

lemma all_spaces: "list_all space_char sp = list_all is_space sp"
  by (simp add: list_all_iff space_char_is_space)

lemma all_words: "list_all word_char t = list_all bare_char t"
  by (simp add: list_all_iff word_char_bare_char)

lemma takeWhile_stop: "rest = [] \<or> \<not> P (hd rest) \<Longrightarrow> takeWhile P rest = []"
  by (cases rest) auto

lemma dropWhile_stop: "rest = [] \<or> \<not> P (hd rest) \<Longrightarrow> dropWhile P rest = rest"
  by (cases rest) auto

lemma takeWhile_all: "list_all P xs \<Longrightarrow> takeWhile P (xs @ ys) = xs @ takeWhile P ys"
  by (simp add: list_all_iff)

lemma dropWhile_all: "list_all P xs \<Longrightarrow> dropWhile P (xs @ ys) = dropWhile P ys"
  by (simp add: list_all_iff)

lemma source_text_starts:
  assumes "well_formed_token tok"
  shows "\<exists>c r. source_text tok = c # r \<and> \<not> is_space c \<and> (bare_char c = is_bare tok)"
proof (cases tok)
  case (Bare t)
  with assms obtain c t' where "t = c # t'" "bare_char c"
    by (cases t) (auto simp: word_char_bare_char)
  then show ?thesis
    using Bare by (auto simp: bare_char_def)
next
  case (SingleQuoted t)
  then show ?thesis by (simp add: is_space_def bare_char_def squote_def)
next
  case (DoubleQuoted its)
  then show ?thesis by (simp add: is_space_def bare_char_def dquote_def)
qed

lemma double_body_items:
  assumes "list_all well_formed_item its"
  shows "double_body (concat (map item_source its) @ CHR 0x22 # rest)
           = Some (map item_char its, rest)"
  using assms
proof (induction its)
  case Nil
  show ?case by (simp add: dquote_def)
next
  case (Cons i its)
  then have ih: "double_body (concat (map item_source its) @ CHR 0x22 # rest)
                   = Some (map item_char its, rest)"
    by simp
  show ?case
  proof (cases i)
    case (Plain c)
    with Cons.prems have "c \<noteq> dquote" "c \<noteq> backslash"
      by (simp_all add: dquote_def backslash_def)
    then show ?thesis
      using ih by (simp add: Plain)
  next
    case (Escaped c)
    have "CHR 0x5C \<noteq> dquote" "CHR 0x5C = backslash"
      by (simp_all add: dquote_def backslash_def)
    then show ?thesis
      using ih by (simp add: Escaped)
  qed
qed

lemma quoted_single_source:
  assumes "list_all (\<lambda>c. c \<noteq> CHR 0x27) t"
  shows "quoted_single (CHR 0x27 # t @ CHR 0x27 # rest) = Some (t, rest)"
proof -
  have all: "\<And>x. x \<in> set t \<Longrightarrow> x \<noteq> squote"
    using assms by (simp add: list_all_iff squote_def)
  have "takeWhile (\<lambda>x. x \<noteq> squote) (t @ squote # rest) = t"
    using all by simp
  moreover have "dropWhile (\<lambda>x. x \<noteq> squote) (t @ squote # rest) = squote # rest"
    using all by simp
  ultimately show ?thesis
    by (simp add: quoted_single_def squote_def)
qed

lemma argument_quoted:
  assumes "well_formed_token tok" "\<not> is_bare tok"
  shows "argument (source_text tok @ rest) = Some (literal tok, rest)"
proof (cases tok)
  case (Bare t)
  with assms(2) show ?thesis by simp
next
  case (SingleQuoted t)
  have "quoted_double (CHR 0x27 # t @ CHR 0x27 # rest) = None"
    by (simp add: quoted_double_def dquote_def)
  then show ?thesis
    using SingleQuoted assms(1) quoted_single_source by (simp add: argument_def)
next
  case (DoubleQuoted its)
  then show ?thesis
    using assms(1) double_body_items by (simp add: argument_def quoted_double_def dquote_def)
qed

lemma argument_bare:
  assumes "bare_char c"
  shows "argument (c # s) = Some (takeWhile bare_char (c # s), dropWhile bare_char (c # s))"
proof -
  have "quoted_double (c # s) = None" "quoted_single (c # s) = None"
    using assms by (simp_all add: quoted_double_def quoted_single_def bare_char_def)
  then show ?thesis
    using assms by (simp add: argument_def bare_def)
qed

lemma args_text_Cons: "args_text ((sp, t) # args) = sp @ source_text t @ args_text args"
  by (simp add: args_text_def)

lemma args_text_stop:
  assumes "well_formed_args ((sp, t) # args)" "sp \<noteq> [] \<or> \<not> is_bare t"
  shows "\<not> bare_char (hd (args_text ((sp, t) # args)))"
proof (cases sp)
  case Nil
  with assms(2) have nb: "\<not> is_bare t" by simp
  from assms(1) have "well_formed_token t" by (simp add: well_formed_args_def)
  from source_text_starts [OF this] nb show ?thesis
    by (auto simp: args_text_Cons Nil)
next
  case (Cons c sp')
  with assms(1) have "is_space c"
    by (simp add: well_formed_args_def space_char_is_space)
  then show ?thesis
    by (simp add: args_text_Cons Cons bare_char_def)
qed

text \<open>
  A bare word read off the front of a derivation's text swallows the bare arguments that
  follow it directly; what is left is the text of the arguments after them.
\<close>

lemma bare_munch:
  assumes "well_formed_args args" "list_all bare_char a"
  shows "\<exists>args'. dropWhile bare_char (a @ args_text args) = args_text args'
           \<and> well_formed_args args' \<and> length args' \<le> length args
           \<and> open_words (Some a) args
               = takeWhile bare_char (a @ args_text args) # open_words None args'"
  using assms
proof (induction args arbitrary: a)
  case Nil
  have all: "\<forall>x\<in>set a. bare_char x"
    using Nil.prems(2) by (simp add: list_all_iff)
  have tk: "takeWhile bare_char a = a"
    using all by (rule takeWhile_eq_all_conv [THEN iffD2])
  have dr: "dropWhile bare_char a = []"
    using all by (rule dropWhile_eq_Nil_conv [THEN iffD2])
  show ?case
    by (intro exI [of _ "[]"]) (simp add: tk dr args_text_def well_formed_args_def)
next
  case (Cons x args)
  obtain sp t where x: "x = (sp, t)" by (cases x)
  have wf_rest: "well_formed_args args" and wf_t: "well_formed_token t"
    using Cons.prems(1) by (simp_all add: well_formed_args_def x)
  show ?case
  proof (cases "sp = [] \<and> is_bare t")
    case True
    then obtain b where t: "t = Bare b" and sp: "sp = []"
      by (cases t) simp_all
    have "list_all bare_char (a @ b)"
      using Cons.prems(2) wf_t by (simp add: t all_words)
    from Cons.IH [OF wf_rest this] obtain args' where
      "dropWhile bare_char ((a @ b) @ args_text args) = args_text args'"
      "well_formed_args args'" "length args' \<le> length args"
      "open_words (Some (a @ b)) args
         = takeWhile bare_char ((a @ b) @ args_text args) # open_words None args'"
      by blast
    then show ?thesis
      by (intro exI [of _ args']) (simp add: x t sp args_text_Cons)
  next
    case False
    then have far: "sp \<noteq> [] \<or> \<not> is_bare t" by blast
    have stop: "args_text (x # args) = [] \<or> \<not> bare_char (hd (args_text (x # args)))"
      using args_text_stop [OF _ far] Cons.prems(1) by (simp add: x)
    have tk: "takeWhile bare_char (a @ args_text (x # args)) = a"
      using Cons.prems(2) stop by (simp add: takeWhile_all takeWhile_stop)
    have dr: "dropWhile bare_char (a @ args_text (x # args)) = args_text (x # args)"
      using Cons.prems(2) stop by (simp add: dropWhile_all dropWhile_stop)
    have ow: "open_words (Some a) (x # args) = a # open_words None (x # args)"
      using far by (cases t) (auto simp: x)
    show ?thesis
      using Cons.prems(1) by (intro exI [of _ "x # args"]) (simp add: tk dr ow)
  qed
qed

lemma arglist_Nil: "arglist [] = ([], [])"
proof -
  have "argument [] = None"
    by (simp add: argument_def quoted_double_def quoted_single_def bare_def)
  then show ?thesis
    by (subst arglist.simps) simp
qed

lemma arglist_Some:
  assumes "argument (dropWhile is_space s) = Some (t, rest)"
  shows "arg_texts (fst (arglist s))
           = (case arg_texts (fst (arglist rest)) of Inl e \<Rightarrow> Inl e | Inr as \<Rightarrow> Inr (t # as))
         \<and> snd (arglist s) = snd (arglist rest)"
proof -
  have "arglist s = (let (ns, r) = arglist rest
       in (Node (consumed s rest) [] (Some (Node t [] None)) # ns, r))"
    by (subst arglist.simps) (simp only: assms option.case prod.case)
  then show ?thesis
    by (simp add: case_prod_beta split: sum.splits)
qed

text \<open>The parser's argument list on the text of well-formed arguments.\<close>

lemma arglist_args:
  assumes "well_formed_args args"
  shows "arg_texts (fst (arglist (args_text args))) = Inr (open_words None args)
         \<and> snd (arglist (args_text args)) = []"
  using assms
proof (induction args rule: length_induct)
  case (1 args)
  show ?case
  proof (cases args)
    case Nil
    then show ?thesis by (simp add: args_text_def arglist_Nil)
  next
    case (Cons x rest)
    obtain sp t where x: "x = (sp, t)" by (cases x)
    have wf_rest: "well_formed_args rest" and wf_t: "well_formed_token t"
      and sp: "list_all is_space sp"
      using "1.prems" by (simp_all add: well_formed_args_def Cons x all_spaces)
    from source_text_starts [OF wf_t] obtain c r where
      src: "source_text t = c # r" and c: "\<not> is_space c" and cb: "bare_char c = is_bare t"
      by blast
    have skip: "dropWhile is_space (args_text args) = source_text t @ args_text rest"
      using sp c by (simp add: Cons x args_text_Cons dropWhile_all src)
    show ?thesis
    proof (cases "is_bare t")
      case False
      have "argument (dropWhile is_space (args_text args)) = Some (literal t, args_text rest)"
        using argument_quoted [OF wf_t False] by (simp add: skip)
      from arglist_Some [OF this] have
        "arg_texts (fst (arglist (args_text args)))
           = (case arg_texts (fst (arglist (args_text rest))) of
                Inl e \<Rightarrow> Inl e | Inr as \<Rightarrow> Inr (literal t # as))"
        "snd (arglist (args_text args)) = snd (arglist (args_text rest))"
        by simp_all
      moreover have "arg_texts (fst (arglist (args_text rest))) = Inr (open_words None rest)
         \<and> snd (arglist (args_text rest)) = []"
        using "1.IH" wf_rest by (simp add: Cons)
      moreover have "open_words None args = literal t # open_words None rest"
        using False by (cases t) (simp_all add: Cons x)
      ultimately show ?thesis by simp
    next
      case True
      then obtain b where t: "t = Bare b" by (cases t) simp_all
      have b: "list_all bare_char b"
        using wf_t by (simp add: t all_words)
      from bare_munch [OF wf_rest b] obtain args' where
        dr: "dropWhile bare_char (b @ args_text rest) = args_text args'"
        and wf': "well_formed_args args'" and len: "length args' \<le> length rest"
        and ow: "open_words (Some b) rest
                   = takeWhile bare_char (b @ args_text rest) # open_words None args'"
        by blast
      have "bare_char c" using cb True by simp
      from argument_bare [OF this, of "r @ args_text rest"]
      have "argument (dropWhile is_space (args_text args))
              = Some (takeWhile bare_char (b @ args_text rest), args_text args')"
        using src dr by (simp add: skip t)
      from arglist_Some [OF this] have
        "arg_texts (fst (arglist (args_text args)))
           = (case arg_texts (fst (arglist (args_text args'))) of
                Inl e \<Rightarrow> Inl e
              | Inr as \<Rightarrow> Inr (takeWhile bare_char (b @ args_text rest) # as))"
        "snd (arglist (args_text args)) = snd (arglist (args_text args'))"
        by simp_all
      moreover have "arg_texts (fst (arglist (args_text args'))) = Inr (open_words None args')
         \<and> snd (arglist (args_text args')) = []"
        using "1.IH" wf' len by (simp add: Cons)
      moreover have "open_words None args = open_words (Some b) rest"
        by (simp add: Cons x t)
      ultimately show ?thesis by (simp add: ow)
    qed
  qed
qed

lemma arglist_dropWhile:
  "arg_texts (fst (arglist (dropWhile is_space s))) = arg_texts (fst (arglist s))
   \<and> (snd (arglist s) = [] \<longrightarrow> snd (arglist (dropWhile is_space s)) = [])"
proof (cases "argument (dropWhile is_space s)")
  case None
  then have 1: "arglist s = ([], s)"
    by (subst arglist.simps) simp
  from None have "argument (dropWhile is_space (dropWhile is_space s)) = None"
    by simp
  then have 2: "arglist (dropWhile is_space s) = ([], dropWhile is_space s)"
    by (subst arglist.simps) simp
  show ?thesis by (auto simp: 1 2 arglist_Nil)
next
  case (Some x)
  obtain t rest where x: "x = (t, rest)" by (cases x)
  have a: "argument (dropWhile is_space s) = Some (t, rest)"
    using Some x by simp
  then have b: "argument (dropWhile is_space (dropWhile is_space s)) = Some (t, rest)"
    by simp
  show ?thesis
    using arglist_Some [OF a] arglist_Some [OF b] by simp
qed

lemma arg_texts_arglist: "\<exists>as. arg_texts (fst (arglist s)) = Inr as"
proof (induction s rule: arglist.induct)
  case (1 s)
  show ?case
  proof (cases "argument (dropWhile is_space s)")
    case None
    then show ?thesis by (subst arglist.simps) simp
  next
    case (Some x)
    obtain t rest where x: "x = (t, rest)" by (cases x)
    from "1.IH" [OF Some x [symmetric]] obtain as where "arg_texts (fst (arglist rest)) = Inr as"
      by blast
    then show ?thesis
      using arglist_Some [of s t rest] Some x by simp
  qed
qed

lemma command_of_parse:
  "command_of parse s =
     (case bare s of
        None \<Rightarrow> Inl ParseError
      | Some (p, r) \<Rightarrow>
          if snd (arglist (dropWhile is_space r)) = [] then
            (case arg_texts (fst (arglist (dropWhile is_space r))) of
               Inl e \<Rightarrow> Inl e | Inr as \<Rightarrow> Inr (p, as))
          else Inl ParseError)"
  by (simp add: command_of_def parse_def case_prod_beta Let_def nth_node_def
      split: option.splits sum.splits)

lemma command_of_parse_total:
  "command_of parse s = Inl ParseError \<or>
   (\<exists>p as. command_of parse s = Inr (p, as) \<and> p \<noteq> [] \<and> list_all word_char p)"
proof (cases "bare s")
  case None
  then show ?thesis by (simp add: command_of_parse)
next
  case (Some x)
  obtain p r where x: "x = (p, r)" by (cases x)
  have p: "p \<noteq> []" "list_all word_char p"
    using Some x
    by (auto simp: bare_def list_all_iff word_char_bare_char split: if_splits
        dest: set_takeWhileD)
  obtain as where as: "arg_texts (fst (arglist (dropWhile is_space r))) = Inr as"
    using arg_texts_arglist by blast
  show ?thesis
    using p as by (simp add: command_of_parse Some x)
qed

text \<open>Every derivation of the grammar parses, to its words.\<close>

lemma command_of_parse_words:
  assumes "well_formed_command p sp args"
  shows "\<exists>w ws. command_words p sp args = w # ws
           \<and> command_of parse (command_text p sp args) = Inr (w, ws)"
proof -
  have p: "p \<noteq> []" "list_all bare_char p" and sp: "list_all is_space sp"
    and wf: "well_formed_args args"
    using assms by (simp_all add: well_formed_command_def all_words all_spaces)
  show ?thesis
  proof (cases "sp = []")
    case True
    from bare_munch [OF wf p(2)] obtain args' where
      dr: "dropWhile bare_char (p @ args_text args) = args_text args'"
      and wf': "well_formed_args args'"
      and ow: "open_words (Some p) args
                 = takeWhile bare_char (p @ args_text args) # open_words None args'"
      by blast
    let ?w = "takeWhile bare_char (p @ args_text args)"
    have "?w = p @ takeWhile bare_char (args_text args)"
      using p(2) by (simp add: takeWhile_all)
    then have "?w \<noteq> []" using p(1) by simp
    then have b: "bare (p @ args_text args) = Some (?w, args_text args')"
      by (simp add: bare_def dr)
    have "arg_texts (fst (arglist (dropWhile is_space (args_text args'))))
            = Inr (open_words None args')
          \<and> snd (arglist (dropWhile is_space (args_text args'))) = []"
      using arglist_args [OF wf'] arglist_dropWhile [of "args_text args'"] by simp
    then have "command_of parse (command_text p sp args) = Inr (?w, open_words None args')"
      by (simp add: command_of_parse command_text_def True b)
    then show ?thesis
      by (simp add: command_words_def True ow)
  next
    case False
    then have "\<not> bare_char (hd (sp @ args_text args))"
      using sp by (cases sp) (simp_all add: bare_char_def)
    then have stop: "sp @ args_text args = [] \<or> \<not> bare_char (hd (sp @ args_text args))"
      by simp
    have "takeWhile bare_char (p @ sp @ args_text args) = p"
      "dropWhile bare_char (p @ sp @ args_text args) = sp @ args_text args"
      using p(2) stop takeWhile_stop [of "sp @ args_text args" bare_char]
        dropWhile_stop [of "sp @ args_text args" bare_char]
      by (simp_all add: takeWhile_all dropWhile_all)
    then have b: "bare (p @ sp @ args_text args) = Some (p, sp @ args_text args)"
      using p(1) by (simp add: bare_def)
    have "dropWhile is_space (sp @ args_text args) = dropWhile is_space (args_text args)"
      using sp by (simp add: dropWhile_all)
    moreover have "arg_texts (fst (arglist (dropWhile is_space (args_text args))))
            = Inr (open_words None args)
          \<and> snd (arglist (dropWhile is_space (args_text args))) = []"
      using arglist_args [OF wf] arglist_dropWhile [of "args_text args"] by simp
    ultimately have "command_of parse (command_text p sp args) = Inr (p, open_words None args)"
      by (simp add: command_of_parse command_text_def b)
    then show ?thesis
      by (simp add: command_words_def False)
  qed
qed

lemma open_words_separated:
  assumes "separated (cur \<noteq> None) args"
  shows "open_words cur args
           = (case cur of None \<Rightarrow> [] | Some a \<Rightarrow> [a]) @ map (\<lambda>a. literal (snd a)) args"
  using assms
proof (induction args arbitrary: cur)
  case Nil
  show ?case by (cases cur) simp_all
next
  case (Cons x args)
  obtain sp t where x: "x = (sp, t)" by (cases x)
  show ?case
  proof (cases t)
    case (Bare b)
    have "separated (Some b \<noteq> None) args"
      using Cons.prems by (simp add: x Bare)
    from Cons.IH [OF this] show ?thesis
      using Cons.prems by (cases cur) (auto simp: x Bare)
  next
    case (SingleQuoted q)
    have "separated (None \<noteq> (None :: string option)) args"
      using Cons.prems by (simp add: x SingleQuoted)
    from Cons.IH [OF this] show ?thesis
      by (cases cur) (simp_all add: x SingleQuoted)
  next
    case (DoubleQuoted its)
    have "separated (None \<noteq> (None :: string option)) args"
      using Cons.prems by (simp add: x DoubleQuoted)
    from Cons.IH [OF this] show ?thesis
      by (cases cur) (simp_all add: x DoubleQuoted)
  qed
qed

lemma command_words_separated:
  assumes "separated (sp = []) args"
  shows "command_words p sp args = p # map (\<lambda>a. literal (snd a)) args"
proof (cases "sp = []")
  case True
  then have "separated (Some p \<noteq> None) args" using assms by simp
  from open_words_separated [OF this] show ?thesis
    by (simp add: command_words_def True)
next
  case False
  then have "separated (None \<noteq> (None :: string option)) args" using assms by simp
  from open_words_separated [OF this] show ?thesis
    by (simp add: command_words_def False)
qed

lemma command_of_parse_separated:
  assumes "well_formed_command p sp args" "separated (sp = []) args"
  shows "command_of parse (command_text p sp args) = Inr (p, map (\<lambda>a. literal (snd a)) args)"
  using command_of_parse_words [OF assms(1)] command_words_separated [OF assms(2), of p]
  by auto

text \<open>Conversely, what the parser accepts is the text of a derivation.\<close>

lemma double_body_sound:
  assumes "double_body u = Some (v, r)"
  shows "\<exists>its. list_all well_formed_item its
           \<and> u = concat (map item_source its) @ CHR 0x22 # r \<and> v = map item_char its"
  using assms
proof (induction u arbitrary: v r rule: double_body.induct)
  case 1
  then show ?case by simp
next
  case (2 c r0)
  show ?case
  proof (cases "c = dquote")
    case True
    with "2.prems" have "v = []" "r = r0" by simp_all
    then show ?thesis
      using True by (intro exI [of _ "[]"]) (simp add: dquote_def)
  next
    case nd: False
    show ?thesis
    proof (cases "c = backslash")
      case True
      with nd "2.prems" obtain e r' t where
        r0: "r0 = e # r'" and db: "double_body r' = Some (t, r)" and v: "v = e # t"
        by (auto split: list.splits)
      from "2.IH"(1) [OF nd True r0 db] obtain its where
        "list_all well_formed_item its" "r' = concat (map item_source its) @ CHR 0x22 # r"
        "t = map item_char its"
        by blast
      then show ?thesis
        using True r0 v by (intro exI [of _ "Escaped e # its"]) (simp add: backslash_def)
    next
      case False
      with nd "2.prems" obtain t where
        db: "double_body r0 = Some (t, r)" and v: "v = c # t"
        by auto
      from "2.IH"(2) [OF nd False db] obtain its where
        "list_all well_formed_item its" "r0 = concat (map item_source its) @ CHR 0x22 # r"
        "t = map item_char its"
        by blast
      then show ?thesis
        using False nd v
        by (intro exI [of _ "Plain c # its"]) (simp add: backslash_def dquote_def)
    qed
  qed
qed

lemma argument_sound:
  assumes "argument s = Some (t, rest)"
  shows "\<exists>tok. well_formed_token tok \<and> s = source_text tok @ rest \<and> literal tok = t"
proof (cases "quoted_double s")
  case (Some x)
  with assms have "quoted_double s = Some (t, rest)"
    by (simp add: argument_def)
  then obtain u where s: "s = dquote # u" and "double_body u = Some (t, rest)"
    by (auto simp: quoted_double_def split: list.splits if_splits)
  from double_body_sound [OF this(2)] obtain its where
    "list_all well_formed_item its" "u = concat (map item_source its) @ CHR 0x22 # rest"
    "t = map item_char its"
    by blast
  then show ?thesis
    using s by (intro exI [of _ "DoubleQuoted its"]) (simp add: dquote_def)
next
  case None
  show ?thesis
  proof (cases "quoted_single s")
    case (Some x)
    with None assms have "quoted_single s = Some (t, rest)"
      by (simp add: argument_def)
    then obtain r q where s: "s = squote # r"
      and d: "dropWhile (\<lambda>x. x \<noteq> squote) r = q # rest"
      and t: "t = takeWhile (\<lambda>x. x \<noteq> squote) r"
      by (auto simp: quoted_single_def split: list.splits if_splits)
    have "q = squote"
      using hd_dropWhile [of "\<lambda>x. x \<noteq> squote" r] d by simp
    moreover have "r = t @ q # rest"
      using takeWhile_dropWhile_id [of "\<lambda>x. x \<noteq> squote" r] d t by simp
    moreover have "list_all (\<lambda>c. c \<noteq> CHR 0x27) t"
      using t by (auto simp: list_all_iff squote_def dest: set_takeWhileD)
    ultimately show ?thesis
      using s by (intro exI [of _ "SingleQuoted t"]) (simp add: squote_def)
  next
    case n2: None
    with None assms have "bare s = Some (t, rest)"
      by (simp add: argument_def)
    then have t: "t = takeWhile bare_char s" "t \<noteq> []" and r: "rest = dropWhile bare_char s"
      by (auto simp: bare_def split: if_splits)
    have "list_all word_char t"
      using t(1) by (auto simp: list_all_iff word_char_bare_char dest: set_takeWhileD)
    then show ?thesis
      using t r by (intro exI [of _ "Bare t"]) simp
  qed
qed

lemma arglist_sound:
  assumes "snd (arglist s) = []"
  shows "\<exists>args. well_formed_args args \<and> s = args_text args"
  using assms
proof (induction s rule: arglist.induct)
  case (1 s)
  show ?case
  proof (cases "argument (dropWhile is_space s)")
    case None
    then have "arglist s = ([], s)"
      by (subst arglist.simps) simp
    with "1.prems" have "s = []" by simp
    then show ?thesis
      by (intro exI [of _ "[]"]) (simp add: well_formed_args_def args_text_def)
  next
    case (Some x)
    obtain t rest where x: "x = (t, rest)" by (cases x)
    have a: "argument (dropWhile is_space s) = Some (t, rest)"
      using Some x by simp
    from arglist_Some [OF a] "1.prems" have "snd (arglist rest) = []"
      by simp
    from "1.IH" [OF Some x [symmetric] this] obtain args where
      args: "well_formed_args args" "rest = args_text args"
      by blast
    from argument_sound [OF a] obtain tok where
      tok: "well_formed_token tok" "dropWhile is_space s = source_text tok @ rest"
      by blast
    have sp: "list_all space_char (takeWhile is_space s)"
      by (auto simp: list_all_iff space_char_is_space dest: set_takeWhileD)
    have "s = takeWhile is_space s @ source_text tok @ rest"
      using takeWhile_dropWhile_id [of is_space s] tok(2) by simp
    then have "s = args_text ((takeWhile is_space s, tok) # args)"
      using args(2) by (simp add: args_text_Cons)
    moreover have "well_formed_args ((takeWhile is_space s, tok) # args)"
      using args(1) tok(1) sp by (simp add: well_formed_args_def)
    ultimately show ?thesis by blast
  qed
qed

lemma command_of_parse_sound:
  assumes "command_of parse s = Inr (w, ws)"
  shows "\<exists>p sp args. well_formed_command p sp args \<and> s = command_text p sp args"
proof (cases "bare s")
  case None
  with assms show ?thesis by (simp add: command_of_parse)
next
  case (Some x)
  obtain p r where x: "x = (p, r)" by (cases x)
  have p: "p = takeWhile bare_char s" "p \<noteq> []" and r: "r = dropWhile bare_char s"
    using Some x by (auto simp: bare_def split: if_splits)
  have wp: "list_all word_char p"
    using p(1) by (auto simp: list_all_iff word_char_bare_char dest: set_takeWhileD)
  have "snd (arglist (dropWhile is_space r)) = []"
    using assms by (simp add: command_of_parse Some x split: if_splits)
  from arglist_sound [OF this] obtain args where
    args: "well_formed_args args" "dropWhile is_space r = args_text args"
    by blast
  have sp: "list_all space_char (takeWhile is_space r)"
    by (auto simp: list_all_iff space_char_is_space dest: set_takeWhileD)
  have "s = p @ takeWhile is_space r @ dropWhile is_space r"
    using takeWhile_dropWhile_id [of bare_char s] p(1) r by simp
  then have "s = command_text p (takeWhile is_space r) args"
    using args(2) by (simp add: command_text_def)
  moreover have "well_formed_command p (takeWhile is_space r) args"
    using p(2) wp sp args(1) by (simp add: well_formed_command_def)
  ultimately show ?thesis by blast
qed

lemma example_command_text:
  "example_command
     = command_text ''name'' []
         [('' '', SingleQuoted ''a b''),
          ('' '', DoubleQuoted [Plain (CHR ''c''), Escaped (CHR 0x22), Plain (CHR ''d'')])]"
  by (simp add: example_command_def command_text_def args_text_def)

section \<open>The claims\<close>

text \<open>
  C1. For the command string \<^verbatim>\<open>name 'a b' "c\"d"\<close> the program read off the parse is
  \<^verbatim>\<open>name\<close> and the arguments are \<^verbatim>\<open>a b\<close> and \<^verbatim>\<open>c"d\<close>, in source order, with
  the interior whitespace kept and the quoting and the escape removed. For every command
  string, reading the command either fails with a parse error or yields one non-empty
  program of word characters and a list of arguments, never a partial result (the reads of
  the tree never hit a missing element). Every well-formed command string, that is the
  text of any derivation of the grammar (any run of blanks and tabs, also none, after the
  program and before each argument; inside double quotes a backslash before any
  character), yields the words of the derivation, the first as the program and the others
  as the arguments; when no bare argument directly follows a bare word, these are exactly
  the program and the literals of the argument tokens, in order. And a command string that
  yields a program and arguments is well-formed.
\<close>

theorem parse_program_and_arguments:
  "command_of parse example_command = Inr (''name'', [''a b'', [CHR ''c'', CHR 0x22, CHR ''d'']])
   \<and> (command_of parse s = Inl ParseError \<or>
      (\<exists>w ws. command_of parse s = Inr (w, ws) \<and> w \<noteq> [] \<and> list_all word_char w))
   \<and> (well_formed_command p sp args \<longrightarrow>
        (\<exists>w ws. command_words p sp args = w # ws
           \<and> command_of parse (command_text p sp args) = Inr (w, ws)))
   \<and> (well_formed_command p sp args \<and> separated (sp = []) args \<longrightarrow>
        command_of parse (command_text p sp args) = Inr (p, map (\<lambda>a. literal (snd a)) args))
   \<and> ((\<exists>w ws. command_of parse s = Inr (w, ws)) \<longrightarrow>
        (\<exists>p sp args. well_formed_command p sp args \<and> s = command_text p sp args))"
proof (intro conjI impI)
  have "well_formed_command ''name'' []
          [('' '', SingleQuoted ''a b''),
           ('' '', DoubleQuoted [Plain (CHR ''c''), Escaped (CHR 0x22), Plain (CHR ''d'')])]"
    by (simp add: well_formed_command_def well_formed_args_def space_char_def word_char_def)
  moreover have "separated ([] = ([] :: string))
          [('' '', SingleQuoted ''a b''),
           ('' '', DoubleQuoted [Plain (CHR ''c''), Escaped (CHR 0x22), Plain (CHR ''d'')])]"
    by simp
  ultimately have "command_of parse example_command
          = Inr (''name'', map (\<lambda>a. literal (snd a))
              [('' '', SingleQuoted ''a b''),
               ('' '', DoubleQuoted [Plain (CHR ''c''), Escaped (CHR 0x22), Plain (CHR ''d'')])])"
    unfolding example_command_text by (rule command_of_parse_separated)
  then show "command_of parse example_command
               = Inr (''name'', [''a b'', [CHR ''c'', CHR 0x22, CHR ''d'']])"
    by simp
next
  show "command_of parse s = Inl ParseError \<or>
      (\<exists>w ws. command_of parse s = Inr (w, ws) \<and> w \<noteq> [] \<and> list_all word_char w)"
    by (rule command_of_parse_total)
next
  assume "well_formed_command p sp args"
  then show "\<exists>w ws. command_words p sp args = w # ws
           \<and> command_of parse (command_text p sp args) = Inr (w, ws)"
    by (rule command_of_parse_words)
next
  assume "well_formed_command p sp args \<and> separated (sp = []) args"
  then show "command_of parse (command_text p sp args)
               = Inr (p, map (\<lambda>a. literal (snd a)) args)"
    using command_of_parse_separated by blast
next
  assume "\<exists>w ws. command_of parse s = Inr (w, ws)"
  then show "\<exists>p sp args. well_formed_command p sp args \<and> s = command_text p sp args"
    using command_of_parse_sound by blast
qed

theorem parse_program_and_arguments_witness:
  "command_of parse example_command = Inr (''name'', [''a b'', [CHR ''c'', CHR 0x22, CHR ''d'']])
   \<and> command_of parse [CHR 0x22, CHR ''h'', CHR ''i''] = Inl ParseError
   \<and> command_of parse (''echo'' @ [CHR 0x09] @ ''hi'') = Inr (''echo'', [''hi''])
   \<and> command_of parse
        (''awk'' @ [CHR '' '', CHR 0x09, CHR '' ''] @ [CHR 0x22] @ ''NR'' @ [CHR 0x5C] @ ''t%''
           @ [CHR 0x5C, CHR 0x5C] @ '' 2'' @ [CHR 0x22] @ [CHR 0x27] @ ''a  b'' @ [CHR 0x27]
           @ [CHR 0x09, CHR 0x09] @ ''-v'')
       = Inr (''awk'', [''NRt%'' @ [CHR 0x5C] @ '' 2'', ''a  b'', ''-v''])
   \<and> command_of parse (''ab'' @ ''cd'' @ [CHR 0x27] @ ''e'' @ [CHR 0x27] @ ''f'')
       = Inr (''abcd'', [''e'', ''f''])"
proof -
  have fail: "command_of parse [CHR 0x22, CHR ''h'', CHR ''i''] = Inl ParseError"
    by (simp add: command_of_def parse_def bare_def bare_char_def dquote_def)
  have echo: "well_formed_command ''echo'' [CHR 0x09] [([], Bare ''hi'')]
              \<and> separated ([CHR 0x09] = []) [([], Bare ''hi'')]"
    by (simp add: well_formed_command_def well_formed_args_def space_char_def word_char_def)
  have awk: "well_formed_command ''awk'' [CHR '' '', CHR 0x09, CHR '' '']
               [([], DoubleQuoted [Plain (CHR ''N''), Plain (CHR ''R''), Escaped (CHR ''t''),
                   Plain (CHR ''%''), Escaped (CHR 0x5C), Plain (CHR '' ''), Plain (CHR ''2'')]),
                ([], SingleQuoted ''a  b''), ([CHR 0x09, CHR 0x09], Bare ''-v'')]
             \<and> separated ([CHR '' '', CHR 0x09, CHR '' ''] = [])
               [([], DoubleQuoted [Plain (CHR ''N''), Plain (CHR ''R''), Escaped (CHR ''t''),
                   Plain (CHR ''%''), Escaped (CHR 0x5C), Plain (CHR '' ''), Plain (CHR ''2'')]),
                ([], SingleQuoted ''a  b''), ([CHR 0x09, CHR 0x09], Bare ''-v'')]"
    by (simp add: well_formed_command_def well_formed_args_def space_char_def word_char_def)
  have ab: "well_formed_command ''ab'' [] [([], Bare ''cd''), ([], SingleQuoted ''e''), ([], Bare ''f'')]"
    by (simp add: well_formed_command_def well_formed_args_def space_char_def word_char_def)
  show ?thesis
    using fail echo awk ab
      parse_program_and_arguments
        [where s = "[CHR 0x22, CHR ''h'', CHR ''i'']" and p = "''echo''" and sp = "[CHR 0x09]"
           and args = "[([], Bare ''hi'')]"]
      parse_program_and_arguments
        [where s = "[]" and p = "''awk''" and sp = "[CHR '' '', CHR 0x09, CHR '' '']"
           and args = "[([], DoubleQuoted [Plain (CHR ''N''), Plain (CHR ''R''),
                   Escaped (CHR ''t''), Plain (CHR ''%''), Escaped (CHR 0x5C), Plain (CHR '' ''),
                   Plain (CHR ''2'')]),
                ([], SingleQuoted ''a  b''), ([CHR 0x09, CHR 0x09], Bare ''-v'')]"]
      parse_program_and_arguments
        [where s = "[]" and p = "''ab''" and sp = "[]"
           and args = "[([], Bare ''cd''), ([], SingleQuoted ''e''), ([], Bare ''f'')]"]
    by (simp add: command_text_def args_text_def command_words_def)
qed

lemma world0_fields:
  "procs world0 = []" "listeners world0 = []" "pipes world0 = []" "pushed world0 = []"
  "ticks world0 = []" "done_log world0 = []" "child_out world0 = []" "tee_out world0 = []"
  "parent_stdout world0 = []" "stage_errors world0 = []" "uncaught world0 = []"
  "nfiles world0 = 4" "nstreams world0 = 1" "process_env world0 = 0"
  "envs world0 r = [''PATH'' \<mapsto> ''/usr/bin'']"
  by (simp_all add: world0_def)

lemma world0_files:
  "contents (heap world0 0) = CNull"
  "contents (heap world0 1) = CBuffer ''1\<newline>2\<newline>3\<newline>4\<newline>''"
  "contents (heap world0 2) = CStream (CallerStream 0)"
  "contents (heap world0 3) = COther ''text''"
  by (simp_all add: world0_def sample_files_def)

lemma stage0_fields:
  "s_id stage0 = 0" "s_cmd stage0 = ''awk''" "s_args stage0 = [''NR % 2 == 0'']" "s_env stage0 = 0"
  by (simp_all add: stage0_def)

lemma wf_world0: "wf_world world0"
  by (simp add: wf_world_def world0_fields)

text \<open>
  C6. For a null file the transform pushes the same file object on the stage and schedules
  \<^verbatim>\<open>done\<close>, and changes nothing else: the store of files is untouched (no field of the
  file is modified) and no child process is spawned.
\<close>

theorem null_file_passes_through:
  "isNull (heap w file) \<Longrightarrow>
     transform st w file d
       = w\<lparr>pushed := pushed w @ [(s_id st, file)], ticks := ticks w @ [Done d]\<rparr>
   \<and> heap (transform st w file d) = heap w
   \<and> procs (transform st w file d) = procs w
   \<and> items (transform st w file d) (s_id st) = items w (s_id st) @ [file]"
  by (simp add: transform_null items_def)

theorem null_file_passes_through_witness:
  "isNull (heap world0 0)
   \<and> transform stage0 world0 0 7 = world0\<lparr>pushed := [(0, 0)], ticks := [Done 7]\<rparr>
   \<and> procs (transform stage0 world0 0 7) = []
   \<and> items (transform stage0 world0 0 7) 0 = [0]"
proof -
  have n: "isNull (heap world0 0)"
    by (simp add: world0_files isNull_def)
  show ?thesis
    using null_file_passes_through [OF n, of stage0 7] n
    by (simp add: world0_fields stage0_fields items_def)
qed

text \<open>
  C3. For a file in streaming mode the transform spawns the child, puts the child's output
  stream itself in the file's contents, registers no listener on that stream (nothing is
  buffered), pushes the same file object and schedules \<^verbatim>\<open>done\<close>, all within the call:
  running the scheduled callbacks alone, with no event of the child delivered, completes
  the item.
\<close>

theorem stream_file_forwarded_at_once:
  "contents (heap w file) = CStream s \<Longrightarrow>
     transform st w file d
       = w\<lparr>procs := procs w @ [new_child st w [PipeFrom file (CStream s)]],
           heap := (heap w)(file := (heap w file)\<lparr>contents := CStream (ChildStdout (length (procs w)))\<rparr>),
           pushed := pushed w @ [(s_id st, file)],
           ticks := ticks w @ [Done d]\<rparr>
   \<and> listeners (transform st w file d) = listeners w
   \<and> child_out (transform st w file d) = child_out w
   \<and> items (transform st w file d) (s_id st) = items w (s_id st) @ [file]
   \<and> done_log (run_events (transform st w file d) (replicate (Suc (length (ticks w))) Tick))
       = done_log w @ dones (ticks w) @ [d]"
proof -
  assume c: "contents (heap w file) = CStream s"
  let ?w = "transform st w file d"
  note eq = transform_stream [OF c, of st d]
  have t: "ticks ?w = ticks w @ [Done d]"
    by (simp add: eq)
  then have "Suc (length (ticks w)) = length (ticks ?w)"
    by simp
  then have "run_events ?w (replicate (Suc (length (ticks w))) Tick)
               = ?w\<lparr>ticks := [], done_log := done_log ?w @ dones (ticks ?w)\<rparr>"
    by (simp only: run_ticks)
  then have "done_log (run_events ?w (replicate (Suc (length (ticks w))) Tick))
               = done_log ?w @ dones (ticks ?w)"
    by simp
  moreover have "done_log ?w = done_log w"
    by (simp add: eq)
  ultimately have "done_log (run_events ?w (replicate (Suc (length (ticks w))) Tick))
               = done_log w @ dones (ticks w) @ [d]"
    by (simp add: t dones_append)
  moreover have "listeners ?w = listeners w" "child_out ?w = child_out w"
    "items ?w (s_id st) = items w (s_id st) @ [file]"
    by (simp_all add: eq items_def)
  ultimately show ?thesis
    using eq by simp
qed

theorem stream_file_forwarded_at_once_witness:
  "contents (heap world0 2) = CStream (CallerStream 0)
   \<and> contents (heap (transform stage0 world0 2 7) 2) = CStream (ChildStdout 0)
   \<and> items (transform stage0 world0 2 7) 0 = [2]
   \<and> listeners (transform stage0 world0 2 7) = []
   \<and> done_log (run_events (transform stage0 world0 2 7) [Tick]) = [7]"
proof -
  have c: "contents (heap world0 2) = CStream (CallerStream 0)"
    by (simp add: world0_files)
  show ?thesis
    using stream_file_forwarded_at_once [OF c, of stage0 7] c
    by (auto simp add: world0_fields stage0_fields items_def)
qed


lemma deliver_end:
  assumes "handlers_of w (Stdout k) EvEnd = [OnEnd s file d]"
  shows "deliver w (End k) = w\<lparr>pushed := pushed w @ [(s, file)], ticks := ticks w @ [Done d]\<rparr>"
  using assms by (simp add: emit_def push_def next_tick_def)

text \<open>
  C2. For a file in buffered mode, in a well-formed world: the transform empties the
  contents and forwards nothing; while the child's output arrives (any sequence of
  \<^verbatim>\<open>readable\<close> events) nothing is pushed and no callback is scheduled, and the contents are
  the chunks read so far, concatenated in the order delivered; at the end-of-output event
  the contents are the whole output of the child in one buffer, and only then the same
  file is pushed and \<^verbatim>\<open>done\<close> is scheduled.
\<close>

theorem buffer_file_accumulates_output:
  assumes "contents (heap w file) = CBuffer b" and "wf_world w"
  shows "let k = length (procs w);
             w1 = transform st w file d;
             w2 = run_events w1 (map (Readable k) chunks);
             w3 = deliver w2 (End k)
         in contents (heap w1 file) = CBuffer [] \<and> pushed w1 = pushed w \<and> ticks w1 = ticks w
          \<and> contents (heap w2 file) = CBuffer (concat (chunks_read chunks))
          \<and> pushed w2 = pushed w \<and> ticks w2 = ticks w
          \<and> delivered w3 (ChildStdout k) = chunks_read chunks
          \<and> contents (heap w3 file) = CBuffer (concat (delivered w3 (ChildStdout k)))
          \<and> path (heap w3 file) = path (heap w file)
          \<and> pushed w3 = pushed w @ [(s_id st, file)]
          \<and> ticks w3 = ticks w @ [Done d]"
proof -
  define k where "k = length (procs w)"
  define w1 where "w1 = transform st w file d"
  define w2 where "w2 = run_events w1 (map (Readable k) chunks)"
  define w3 where "w3 = deliver w2 (End k)"
  have w1: "w1 = w\<lparr>procs := procs w @ [new_child st w [PipeFrom file (CBuffer b)]],
                   heap := (heap w)(file := (heap w file)\<lparr>contents := CBuffer []\<rparr>),
                   listeners := listeners w @
                     [(Stdout k, EvReadable, OnReadable file),
                      (Stdout k, EvEnd, OnEnd (s_id st) file d)]\<rparr>"
    unfolding w1_def k_def by (rule transform_buffer [OF assms(1)])
  have none: "handlers_of w (Stdout k) ev = []" for ev
    using wf_no_handlers [OF assms(2)] by (simp add: k_def)
  have hr: "handlers_of w1 (Stdout k) EvReadable = [OnReadable file]"
    using none [of EvReadable] by (simp add: w1 handlers_of_def)
  have he: "handlers_of w1 (Stdout k) EvEnd = [OnEnd (s_id st) file d]"
    using none [of EvEnd] by (simp add: w1 handlers_of_def)
  have c1: "contents (heap w1 file) = CBuffer []"
    by (simp add: w1)
  have w2: "w2 = w1\<lparr>child_out := child_out w1 @ map (Pair k) (chunks_read chunks),
                    heap := (heap w1)(file := (heap w1 file)\<lparr>contents :=
                      CBuffer ([] @ concat (chunks_read chunks))\<rparr>)\<rparr>"
    unfolding w2_def by (rule run_readables [OF hr c1])
  have he2: "handlers_of w2 (Stdout k) EvEnd = [OnEnd (s_id st) file d]"
    using he handlers_of_listeners [of w2 w1] by (simp add: w2)
  have w3: "w3 = w2\<lparr>pushed := pushed w2 @ [(s_id st, file)], ticks := ticks w2 @ [Done d]\<rparr>"
    unfolding w3_def by (rule deliver_end [OF he2])
  have old: "filter (\<lambda>p. fst p = k) (child_out w) = []"
    using wf_old_records(2) [OF assms(2), of k] by (simp add: k_def)
  have out: "delivered w3 (ChildStdout k) = chunks_read chunks"
    using old by (simp add: w3 w2 w1 comp_def)
  have "contents (heap w1 file) = CBuffer [] \<and> pushed w1 = pushed w \<and> ticks w1 = ticks w
          \<and> contents (heap w2 file) = CBuffer (concat (chunks_read chunks))
          \<and> pushed w2 = pushed w \<and> ticks w2 = ticks w
          \<and> delivered w3 (ChildStdout k) = chunks_read chunks
          \<and> contents (heap w3 file) = CBuffer (concat (delivered w3 (ChildStdout k)))
          \<and> path (heap w3 file) = path (heap w file)
          \<and> pushed w3 = pushed w @ [(s_id st, file)]
          \<and> ticks w3 = ticks w @ [Done d]"
    unfolding out by (simp add: w3 w2 w1)
  then show ?thesis
    unfolding Let_def k_def [symmetric] w1_def [symmetric] w2_def [symmetric] w3_def [symmetric] .
qed


theorem buffer_file_accumulates_output_witness:
  "contents (heap world0 1) = CBuffer ''1\<newline>2\<newline>3\<newline>4\<newline>'' \<and> wf_world world0
   \<and> pushed (run_events (transform stage0 world0 1 7)
         [Readable 0 (Some ''2\<newline>''), Readable 0 None, Readable 0 (Some ''4\<newline>'')]) = []
   \<and> ticks (run_events (transform stage0 world0 1 7)
         [Readable 0 (Some ''2\<newline>''), Readable 0 None, Readable 0 (Some ''4\<newline>'')]) = []
   \<and> contents (heap (deliver (run_events (transform stage0 world0 1 7)
         [Readable 0 (Some ''2\<newline>''), Readable 0 None, Readable 0 (Some ''4\<newline>'')]) (End 0)) 1)
       = CBuffer ''2\<newline>4\<newline>''
   \<and> pushed (deliver (run_events (transform stage0 world0 1 7)
         [Readable 0 (Some ''2\<newline>''), Readable 0 None, Readable 0 (Some ''4\<newline>'')]) (End 0))
       = [(0, 1)]
   \<and> ticks (deliver (run_events (transform stage0 world0 1 7)
         [Readable 0 (Some ''2\<newline>''), Readable 0 None, Readable 0 (Some ''4\<newline>'')]) (End 0))
       = [Done 7]"
proof -
  have c: "contents (heap world0 1) = CBuffer ''1\<newline>2\<newline>3\<newline>4\<newline>''"
    by (rule world0_files)
  show ?thesis
    using buffer_file_accumulates_output [OF c wf_world0, of stage0 7
        "[Some ''2\<newline>'', None, Some ''4\<newline>'']"] c wf_world0
    by (auto simp add: Let_def world0_fields stage0_fields)
qed

lemma handle_keeps:
  "listeners (handle h a w) = listeners w \<and> pipes (handle h a w) = pipes w
   \<and> stage_errors (handle h a w) = stage_errors w"
proof (cases h)
  case (OnReadable f)
  show ?thesis
  proof (cases a)
    case None
    then show ?thesis by (simp add: OnReadable)
  next
    case (Some c)
    then show ?thesis
      by (cases "contents (heap w f)") (simp_all add: OnReadable set_contents_def)
  qed
next
  case (OnEnd s f d)
  then show ?thesis by (simp add: push_def next_tick_def)
qed

lemma handles_keep:
  "listeners (foldl (\<lambda>w' h. handle h a w') w hs) = listeners w
   \<and> pipes (foldl (\<lambda>w' h. handle h a w') w hs) = pipes w
   \<and> stage_errors (foldl (\<lambda>w' h. handle h a w') w hs) = stage_errors w"
  by (induction hs arbitrary: w) (simp_all add: handle_keeps)

lemma stream_write_keeps:
  "listeners (stream_write s c w) = listeners w \<and> pipes (stream_write s c w) = pipes w
   \<and> stage_errors (stream_write s c w) = stage_errors w"
  by (cases s) (simp_all add: tee_transform_def next_tick_def)

lemma writes_keep:
  "listeners (foldl (\<lambda>w' dest. stream_write dest c w') w ds) = listeners w
   \<and> pipes (foldl (\<lambda>w' dest. stream_write dest c w') w ds) = pipes w
   \<and> stage_errors (foldl (\<lambda>w' dest. stream_write dest c w') w ds) = stage_errors w"
  by (induction ds arbitrary: w) (simp_all add: stream_write_keeps)

lemma deliver_keeps:
  "listeners (deliver w e) = listeners w \<and> pipes (deliver w e) = pipes w
   \<and> stage_errors (deliver w e) = stage_errors w"
proof (cases e)
  case (Readable k chunk)
  then show ?thesis
    by (cases chunk) (simp_all add: emit_def handles_keep)
next
  case (End k)
  then show ?thesis by (simp add: emit_def handles_keep)
next
  case (Data k chunk)
  then show ?thesis by (simp add: writes_keep)
next
  case (ChildError k err)
  then show ?thesis by (simp add: emit_def handles_keep)
next
  case Tick
  show ?thesis
  proof (cases "ticks w")
    case Nil
    then show ?thesis by (simp add: Tick)
  next
    case (Cons cb rest)
    then show ?thesis by (cases cb) (simp_all add: Tick)
  qed
qed

lemma run_events_keeps:
  "listeners (run_events w es) = listeners w \<and> pipes (run_events w es) = pipes w
   \<and> stage_errors (run_events w es) = stage_errors w"
proof (induction es arbitrary: w)
  case Nil
  show ?case by (simp add: run_events_def)
next
  case (Cons e es)
  have "run_events w (e # es) = run_events (deliver w e) es"
    by (simp add: run_events_def)
  then show ?case
    using Cons.IH [of "deliver w e"] deliver_keeps [of w e] by simp
qed

lemma deliver_quiet:
  assumes "listeners w = []" "pipes w = []" "ticks w = []"
  shows "ticks (deliver w e) = [] \<and> done_log (deliver w e) = done_log w
         \<and> pushed (deliver w e) = pushed w"
  using assms
  by (cases e) (auto simp: emit_def handlers_of_def split: option.splits)

lemma run_events_quiet:
  assumes "listeners w = []" "pipes w = []" "ticks w = []"
  shows "ticks (run_events w es) = [] \<and> done_log (run_events w es) = done_log w
         \<and> pushed (run_events w es) = pushed w"
  using assms
proof (induction es arbitrary: w)
  case Nil
  then show ?case by (simp add: run_events_def)
next
  case (Cons e es)
  have r: "run_events w (e # es) = run_events (deliver w e) es"
    by (simp add: run_events_def)
  have "listeners (deliver w e) = []" "pipes (deliver w e) = []" "ticks (deliver w e) = []"
    using Cons.prems deliver_keeps [of w e] deliver_quiet [OF Cons.prems, of e] by simp_all
  from Cons.IH [OF this] show ?case
    using deliver_quiet [OF Cons.prems, of e] by (simp add: r)
qed

lemma transform_procs:
  assumes "\<not> isNull (heap w file)"
  shows "procs (transform st w file d)
           = procs w @ [new_child st w (vinyl_pipe file (contents (heap w file)))]"
proof (cases "contents (heap w file)")
  case CNull
  with assms show ?thesis by (simp add: isNull_def)
next
  case (CBuffer b)
  then show ?thesis by (simp add: transform_buffer)
next
  case (CStream s)
  then show ?thesis by (simp add: transform_stream)
next
  case (COther x)
  then show ?thesis by (simp add: transform_other)
qed

text \<open>
  C10, as amended. For every file that is not null, whatever its representation, the
  transform spawns one child for the stage's command and calls the file's \<^verbatim>\<open>pipe\<close> on the
  child's stdin before it looks at the representation: the contents the file had at the
  call are handed to stdin when they are a stream or a buffer, and nothing is handed to it
  when they are neither. For such contents that is all the transform does: the world after
  the call is the world before it plus the new child with an untouched stdin, and whatever
  events follow, the child's stdin stays so and the pushed files, the scheduled and the
  completed callbacks and the errors raised are those the world would have had without the
  call; the file is never forwarded, no error is raised and \<^verbatim>\<open>done\<close> is never called.
\<close>

theorem nonnull_file_spawns_and_pipes:
  "\<not> isNull (heap w file) \<Longrightarrow>
     procs (transform st w file d)
       = procs w @ [new_child st w (vinyl_pipe file (contents (heap w file)))]
   \<and> (isStream (heap w file) \<or> isBuffer (heap w file) \<longrightarrow>
        vinyl_pipe file (contents (heap w file)) = [PipeFrom file (contents (heap w file))])
   \<and> (contents (heap w file) = COther x \<longrightarrow>
        vinyl_pipe file (contents (heap w file)) = []
        \<and> transform st w file d = w\<lparr>procs := procs w @ [new_child st w []]\<rparr>
        \<and> run_events (transform st w file d) es
          = (run_events w es)\<lparr>procs := procs w @ [new_child st w []]\<rparr>
        \<and> procs (run_events (transform st w file d) es) = procs w @ [new_child st w []]
        \<and> pushed (run_events (transform st w file d) es) = pushed (run_events w es)
        \<and> ticks (run_events (transform st w file d) es) = ticks (run_events w es)
        \<and> done_log (run_events (transform st w file d) es) = done_log (run_events w es)
        \<and> uncaught (run_events (transform st w file d) es) = uncaught (run_events w es)
        \<and> stage_errors (run_events (transform st w file d) es) = stage_errors (run_events w es))"
proof (intro conjI impI)
  assume "\<not> isNull (heap w file)"
  then show "procs (transform st w file d)
       = procs w @ [new_child st w (vinyl_pipe file (contents (heap w file)))]"
    by (rule transform_procs)
next
  assume "isStream (heap w file) \<or> isBuffer (heap w file)"
  then show "vinyl_pipe file (contents (heap w file)) = [PipeFrom file (contents (heap w file))]"
    by (cases "contents (heap w file)") (simp_all add: isStream_def isBuffer_def)
next
  assume c: "contents (heap w file) = COther x"
  let ?p = "procs w @ [new_child st w []]"
  show "vinyl_pipe file (contents (heap w file)) = []"
    by (simp add: c)
  show t: "transform st w file d = w\<lparr>procs := ?p\<rparr>"
    by (rule transform_other [OF c])
  show r: "run_events (transform st w file d) es = (run_events w es)\<lparr>procs := ?p\<rparr>"
    by (simp only: t run_events_procs)
  show "procs (run_events (transform st w file d) es) = ?p"
    "pushed (run_events (transform st w file d) es) = pushed (run_events w es)"
    "ticks (run_events (transform st w file d) es) = ticks (run_events w es)"
    "done_log (run_events (transform st w file d) es) = done_log (run_events w es)"
    "uncaught (run_events (transform st w file d) es) = uncaught (run_events w es)"
    "stage_errors (run_events (transform st w file d) es) = stage_errors (run_events w es)"
    by (simp_all add: r)
qed

theorem nonnull_file_spawns_and_pipes_witness:
  "\<not> isNull (heap world0 3)
   \<and> procs (transform stage0 world0 3 7)
       = [\<lparr>c_cmd = ''awk'', c_args = [''NR % 2 == 0''], c_env = [''PATH'' \<mapsto> ''/usr/bin''],
           c_stdin = []\<rparr>]
   \<and> procs (run_events (transform stage0 world0 3 7) [End 0, Tick, Tick])
       = [\<lparr>c_cmd = ''awk'', c_args = [''NR % 2 == 0''], c_env = [''PATH'' \<mapsto> ''/usr/bin''],
           c_stdin = []\<rparr>]
   \<and> pushed (run_events (transform stage0 world0 3 7) [End 0, Tick, Tick]) = []
   \<and> done_log (run_events (transform stage0 world0 3 7) [End 0, Tick, Tick]) = []
   \<and> uncaught (run_events (transform stage0 world0 3 7) [End 0, Tick, Tick]) = []
   \<and> \<not> isNull (heap world0 1) \<and> isBuffer (heap world0 1)
   \<and> procs (transform stage0 world0 1 7)
       = [\<lparr>c_cmd = ''awk'', c_args = [''NR % 2 == 0''], c_env = [''PATH'' \<mapsto> ''/usr/bin''],
           c_stdin = [PipeFrom 1 (CBuffer ''1\<newline>2\<newline>3\<newline>4\<newline>'')]\<rparr>]"
proof -
  have n: "\<not> isNull (heap world0 3)"
    by (simp add: isNull_def world0_files)
  have q: "run_events world0 [End 0, Tick, Tick] = world0"
    by (simp add: run_events_def emit_def handlers_of_def world0_fields)
  have other: "procs (transform stage0 world0 3 7) = [new_child stage0 world0 []]
      \<and> procs (run_events (transform stage0 world0 3 7) [End 0, Tick, Tick])
          = [new_child stage0 world0 []]
      \<and> pushed (run_events (transform stage0 world0 3 7) [End 0, Tick, Tick]) = []
      \<and> done_log (run_events (transform stage0 world0 3 7) [End 0, Tick, Tick]) = []
      \<and> uncaught (run_events (transform stage0 world0 3 7) [End 0, Tick, Tick]) = []"
    using nonnull_file_spawns_and_pipes [OF n, of stage0 7 "''text''" "[End 0, Tick, Tick]"] q
    by (auto simp add: world0_fields world0_files)
  have c: "contents (heap world0 1) = CBuffer ''1\<newline>2\<newline>3\<newline>4\<newline>''"
    by (rule world0_files)
  have m: "\<not> isNull (heap world0 1)" and b: "isBuffer (heap world0 1)"
    by (simp_all only: isNull_def isBuffer_def c file_contents.case file_contents.distinct
        simp_thms)
  have "procs (transform stage0 world0 1 7)
          = procs world0 @ [new_child stage0 world0 (vinyl_pipe 1 (contents (heap world0 1)))]
        \<and> vinyl_pipe 1 (contents (heap world0 1)) = [PipeFrom 1 (contents (heap world0 1))]"
    using nonnull_file_spawns_and_pipes [OF m, of stage0 7 "''text''" "[]"] b by blast
  then have buffer: "procs (transform stage0 world0 1 7)
          = [new_child stage0 world0 [PipeFrom 1 (CBuffer ''1\<newline>2\<newline>3\<newline>4\<newline>'')]]"
    by (simp only: c world0_fields append_Nil)
  show ?thesis
    using n m b other buffer by (simp add: world0_fields stage0_fields new_child_def)
qed

text \<open>
  C10 as stated fails: for the sample file whose contents are neither a stream nor a buffer
  the transform spawns the child, and nothing of the file is handed to the child's stdin.
\<close>

theorem other_file_hands_nothing_to_stdin:
  "contents (heap world0 3) = COther ''text''
   \<and> procs (transform stage0 world0 3 7)
       = [\<lparr>c_cmd = ''awk'', c_args = [''NR % 2 == 0''], c_env = [''PATH'' \<mapsto> ''/usr/bin''],
           c_stdin = []\<rparr>]"
  using transform_other [OF world0_files(4), of stage0 7]
  by (simp add: world0_fields world0_files stage0_fields new_child_def)

text \<open>
  C8 (evaluation of the code where the claim fails). The claim is that \<^verbatim>\<open>done\<close> is
  called exactly once for every file, whatever its representation. For the sample file
  whose contents are neither null, a stream nor a buffer, whatever events the runtime
  delivers after the transform, \<^verbatim>\<open>done\<close> has not been called, is not scheduled, and the
  file has not been pushed.
\<close>

theorem other_file_is_never_completed:
  "done_log (run_events (transform stage0 world0 3 7) es) = []
   \<and> items (run_events (transform stage0 world0 3 7) es) 0 = []
   \<and> ticks (run_events (transform stage0 world0 3 7) es) = []"
proof -
  let ?p = "[new_child stage0 world0 []]"
  have "transform stage0 world0 3 7 = world0\<lparr>procs := ?p\<rparr>"
    using transform_other [OF world0_files(4), of stage0 7] by (simp add: world0_fields)
  then have "run_events (transform stage0 world0 3 7) es = (run_events world0 es)\<lparr>procs := ?p\<rparr>"
    by (simp only: run_events_procs)
  moreover have "ticks (run_events world0 es) = [] \<and> done_log (run_events world0 es) = done_log world0
         \<and> pushed (run_events world0 es) = pushed world0"
    by (rule run_events_quiet) (simp_all add: world0_fields)
  ultimately show ?thesis
    by (simp add: world0_fields items_def)
qed

theorem other_file_is_never_completed_witness:
  "done_log (run_events (transform stage0 world0 3 7) [Tick, End 0, Tick]) = []
   \<and> items (run_events (transform stage0 world0 3 7) [Tick, End 0, Tick]) 0 = []
   \<and> ticks (run_events (transform stage0 world0 3 7) [Tick, End 0, Tick]) = []"
  by (rule other_file_is_never_completed)

lemma exec_plain:
  "exec st w False =
     (w\<lparr>procs := procs w @ [new_child st w [StdinEnd]],
        heap := (heap w)(nfiles w := \<lparr>contents = CStream (ChildStdout (length (procs w))),
                                      path = s_cmd st\<rparr>),
        nfiles := Suc (nfiles w),
        nstreams := Suc (nstreams w),
        pushed := pushed w @ [(nstreams w, nfiles w)],
        ticks := ticks w @ [StreamCallback]\<rparr>,
      nstreams w)"
  by (simp add: exec_def spawn_def stdin_do_def new_vinyl_def new_transform_def
      exec_stream_transform_def push_def next_tick_def new_child_def)

lemma exec_print:
  "exec st w True =
     (w\<lparr>procs := procs w @ [new_child st w [StdinEnd]],
        pipes := pipes w @ [(length (procs w), TeeStream (nstreams w) (s_cmd st))],
        heap := (heap w)(nfiles w := \<lparr>contents = CStream (TeeStream (nstreams w) (s_cmd st)),
                                      path = s_cmd st\<rparr>),
        nfiles := Suc (nfiles w),
        nstreams := Suc (Suc (nstreams w)),
        pushed := pushed w @ [(Suc (nstreams w), nfiles w)],
        ticks := ticks w @ [StreamCallback]\<rparr>,
      Suc (nstreams w))"
  by (simp add: exec_def spawn_def stdin_do_def new_vinyl_def new_transform_def tee_def pipe_def
      exec_stream_transform_def push_def next_tick_def new_child_def)

lemma deliver_data_plain:
  assumes "filter (\<lambda>p. fst p = k) (pipes v) = []"
  shows "deliver v (Data k c) = v\<lparr>child_out := child_out v @ [(k, c)]\<rparr>"
  using assms by simp

lemma to_string_ascii:
  assumes "list_all (\<lambda>c. of_char c \<le> (0x7F :: nat)) s"
  shows "to_string s = s"
  unfolding to_string_def using assms by (induction s) simp_all

lemma to_string_samples:
  "to_string ''1\<newline>2\<newline>'' = ''1\<newline>2\<newline>''"
  "to_string ''Hello World\<newline>'' = ''Hello World\<newline>''"
  "to_string ''Hello '' = ''Hello ''"
  "to_string ''World\<newline>'' = ''World\<newline>''"
  by (rule to_string_ascii, simp)+

lemma deliver_data_tee:
  assumes "map snd (filter (\<lambda>p. fst p = k) (pipes v)) = [TeeStream i title]"
  shows "deliver v (Data k c) =
           v\<lparr>child_out := child_out v @ [(k, c)],
             tee_out := tee_out v @ [(i, c)],
             parent_stdout := parent_stdout v @ (''['' @ title @ ''] '' @ to_string c),
             ticks := ticks v @ [StreamCallback]\<rparr>"
  using assms by (simp add: tee_transform_def next_tick_def)

lemma run_data_plain:
  assumes "filter (\<lambda>p. fst p = k) (pipes v) = []"
  shows "child_out (run_events v (map (Data k) chunks)) = child_out v @ map (Pair k) chunks
         \<and> tee_out (run_events v (map (Data k) chunks)) = tee_out v
         \<and> parent_stdout (run_events v (map (Data k) chunks)) = parent_stdout v"
  using assms
proof (induction chunks arbitrary: v)
  case Nil
  show ?case by (simp add: run_events_def)
next
  case (Cons c chunks)
  let ?v = "v\<lparr>child_out := child_out v @ [(k, c)]\<rparr>"
  have r: "run_events v (Data k c # map (Data k) chunks) = run_events ?v (map (Data k) chunks)"
    using deliver_data_plain [OF Cons.prems, of c] by (simp add: run_events_def)
  have "filter (\<lambda>p. fst p = k) (pipes ?v) = []"
    using Cons.prems by simp
  from Cons.IH [OF this] show ?case
    by (simp add: r)
qed

lemma run_data_tee:
  assumes "map snd (filter (\<lambda>p. fst p = k) (pipes v)) = [TeeStream i title]"
  shows "child_out (run_events v (map (Data k) chunks)) = child_out v @ map (Pair k) chunks
         \<and> tee_out (run_events v (map (Data k) chunks)) = tee_out v @ map (Pair i) chunks
         \<and> parent_stdout (run_events v (map (Data k) chunks))
             = parent_stdout v @ concat (map (\<lambda>c. ''['' @ title @ ''] '' @ to_string c) chunks)"
  using assms
proof (induction chunks arbitrary: v)
  case Nil
  show ?case by (simp add: run_events_def)
next
  case (Cons c chunks)
  let ?v = "v\<lparr>child_out := child_out v @ [(k, c)],
             tee_out := tee_out v @ [(i, c)],
             parent_stdout := parent_stdout v @ (''['' @ title @ ''] '' @ to_string c),
             ticks := ticks v @ [StreamCallback]\<rparr>"
  have r: "run_events v (Data k c # map (Data k) chunks) = run_events ?v (map (Data k) chunks)"
    using deliver_data_tee [OF Cons.prems, of c] by (simp add: run_events_def)
  have "map snd (filter (\<lambda>p. fst p = k) (pipes ?v)) = [TeeStream i title]"
    using Cons.prems by simp
  from Cons.IH [OF this] show ?case
    by (simp add: r)
qed

lemma deliver_procs_same: "procs (deliver w e) = procs w"
proof -
  have "deliver (w\<lparr>procs := procs w\<rparr>) e = (deliver w e)\<lparr>procs := procs w\<rparr>"
    by (rule deliver_procs)
  then have "deliver w e = (deliver w e)\<lparr>procs := procs w\<rparr>"
    by simp
  then have "procs (deliver w e) = procs ((deliver w e)\<lparr>procs := procs w\<rparr>)"
    by simp
  then show ?thesis by simp
qed

lemma run_events_procs_same: "procs (run_events w es) = procs w"
proof (induction es arbitrary: w)
  case Nil
  show ?case by (simp add: run_events_def)
next
  case (Cons e es)
  have "run_events w (e # es) = run_events (deliver w e) es"
    by (simp add: run_events_def)
  then show ?case
    using Cons.IH [of "deliver w e"] deliver_procs_same [of w e] by simp
qed

lemma handle_pushed_elsewhere:
  assumes "handler_stream_below x h"
  shows "filter (\<lambda>p. fst p = x) (pushed (handle h a w)) = filter (\<lambda>p. fst p = x) (pushed w)"
proof (cases h)
  case (OnReadable f)
  show ?thesis
  proof (cases a)
    case None
    then show ?thesis by (simp add: OnReadable)
  next
    case (Some c)
    then show ?thesis
      by (cases "contents (heap w f)") (simp_all add: OnReadable set_contents_def)
  qed
next
  case (OnEnd s f d)
  with assms show ?thesis by (simp add: push_def next_tick_def)
qed

lemma handles_pushed_elsewhere:
  assumes "list_all (handler_stream_below x) hs"
  shows "filter (\<lambda>p. fst p = x) (pushed (foldl (\<lambda>w' h. handle h a w') w hs))
           = filter (\<lambda>p. fst p = x) (pushed w)"
  using assms
  by (induction hs arbitrary: w) (simp_all add: handle_pushed_elsewhere)

lemma handlers_of_below:
  assumes "list_all (\<lambda>l. handler_stream_below x (snd (snd l))) (listeners w)"
  shows "list_all (handler_stream_below x) (handlers_of w em ev)"
  using assms by (auto simp: handlers_of_def list_all_iff)

lemma writes_pushed:
  "pushed (foldl (\<lambda>w' dest. stream_write dest c w') w ds) = pushed w"
proof (induction ds arbitrary: w)
  case Nil
  show ?case by simp
next
  case (Cons d ds)
  have "pushed (stream_write d c w) = pushed w"
    by (cases d) (simp_all add: tee_transform_def next_tick_def)
  then show ?case
    using Cons.IH [of "stream_write d c w"] by simp
qed

lemma deliver_pushed_elsewhere:
  assumes "list_all (\<lambda>l. handler_stream_below x (snd (snd l))) (listeners w)"
  shows "filter (\<lambda>p. fst p = x) (pushed (deliver w e)) = filter (\<lambda>p. fst p = x) (pushed w)"
proof -
  have em: "filter (\<lambda>p. fst p = x) (pushed (emit v m ev a)) = filter (\<lambda>p. fst p = x) (pushed v)"
    if "listeners v = listeners w" for v m ev a
  proof -
    have "list_all (handler_stream_below x) (handlers_of v m ev)"
      using handlers_of_below [of x v m ev] assms that by simp
    then show ?thesis
      unfolding emit_def by (rule handles_pushed_elsewhere)
  qed
  show ?thesis
  proof (cases e)
    case (Readable k chunk)
    then show ?thesis
      by (cases chunk) (simp_all add: em)
  next
    case (End k)
    then show ?thesis by (simp add: em)
  next
    case (Data k chunk)
    then show ?thesis by (simp add: writes_pushed)
  next
    case (ChildError k err)
    then show ?thesis by (simp add: em)
  next
    case Tick
    show ?thesis
    proof (cases "ticks w")
      case Nil
      then show ?thesis by (simp add: Tick)
    next
      case (Cons cb rest)
      then show ?thesis by (cases cb) (simp_all add: Tick)
    qed
  qed
qed

lemma run_events_pushed_elsewhere:
  assumes "list_all (\<lambda>l. handler_stream_below x (snd (snd l))) (listeners w)"
  shows "items (run_events w es) x = items w x"
  using assms
proof (induction es arbitrary: w)
  case Nil
  show ?case by (simp add: run_events_def)
next
  case (Cons e es)
  have r: "run_events w (e # es) = run_events (deliver w e) es"
    by (simp add: run_events_def)
  have "listeners (deliver w e) = listeners w"
    using deliver_keeps [of w e] by simp
  then have "list_all (\<lambda>l. handler_stream_below x (snd (snd l))) (listeners (deliver w e))"
    using Cons.prems by simp
  from Cons.IH [OF this] show ?case
    using deliver_pushed_elsewhere [OF Cons.prems, of e] by (simp add: r items_def)
qed

lemma handler_stream_below_mono: "handler_stream_below n h \<Longrightarrow> n \<le> m \<Longrightarrow> handler_stream_below m h"
  by (cases h) simp_all

lemma wf_handlers_below:
  assumes "wf_world w" "nstreams w \<le> x"
  shows "list_all (\<lambda>l. handler_stream_below x (snd (snd l))) (listeners w)"
  using assms by (auto simp: wf_world_def list_all_iff intro: handler_stream_below_mono)



text \<open>
  C4. In a well-formed world a call of \<^verbatim>\<open>exec\<close> spawns exactly one child, for the stage's
  command; the only operation on the child's stdin is its end, so nothing is written
  before it, and no later event changes that; the stream returned holds exactly one item,
  the new file, and whatever events follow it holds no other; the file's path is the
  command and its contents is a stream that delivers exactly the chunks the child's stdout
  delivers, in order and unchanged (the child's stdout itself, or with \<^verbatim>\<open>print\<close> the tee
  it is piped through).
\<close>

theorem exec_spawns_one_child_one_file:
  assumes "wf_world w"
  shows "let k = length (procs w);
             c = (if print then TeeStream (nstreams w) (s_cmd st) else ChildStdout k);
             w1 = fst (exec st w print);
             x = snd (exec st w print);
             w2 = run_events w1 (map (Data k) chunks)
         in procs w1 = procs w @ [new_child st w [StdinEnd]]
          \<and> procs (run_events w1 es) = procs w1
          \<and> items w1 x = [nfiles w]
          \<and> items (run_events w1 es) x = [nfiles w]
          \<and> heap w1 (nfiles w) = \<lparr>contents = CStream c, path = s_cmd st\<rparr>
          \<and> delivered w2 (ChildStdout k) = chunks
          \<and> delivered w2 c = chunks"
proof -
  define k where "k = length (procs w)"
  have old_pipes: "filter (\<lambda>p. fst p = k) (pipes w) = []"
    using wf_old_records(1) [OF assms, of k] by (simp add: k_def)
  have old_out: "filter (\<lambda>p. fst p = k) (child_out w) = []"
    using wf_old_records(2) [OF assms, of k] by (simp add: k_def)
  have old_tee: "filter (\<lambda>p. fst p = nstreams w) (tee_out w) = []"
    using wf_old_records(3) [OF assms, of "nstreams w"] by simp
  have old_pushed: "filter (\<lambda>p. fst p = n) (pushed w) = []" if "nstreams w \<le> n" for n
    using wf_old_records(4) [OF assms that] .
  show ?thesis
  proof (cases print)
    case False
    define w1 where "w1 = fst (exec st w False)"
    have w1: "w1 = w\<lparr>procs := procs w @ [new_child st w [StdinEnd]],
        heap := (heap w)(nfiles w := \<lparr>contents = CStream (ChildStdout k), path = s_cmd st\<rparr>),
        nfiles := Suc (nfiles w),
        nstreams := Suc (nstreams w),
        pushed := pushed w @ [(nstreams w, nfiles w)],
        ticks := ticks w @ [StreamCallback]\<rparr>"
      by (simp add: w1_def exec_plain k_def)
    have x: "snd (exec st w False) = nstreams w"
      by (simp add: exec_plain)
    have "filter (\<lambda>p. fst p = k) (pipes w1) = []"
      using old_pipes by (simp add: w1)
    from run_data_plain [OF this, of chunks]
    have out: "child_out (run_events w1 (map (Data k) chunks)) = child_out w @ map (Pair k) chunks"
      by (simp add: w1)
    have d: "delivered (run_events w1 (map (Data k) chunks)) (ChildStdout k) = chunks"
      using old_out by (simp add: out comp_def)
    have "list_all (\<lambda>l. handler_stream_below (nstreams w) (snd (snd l))) (listeners w1)"
      using wf_handlers_below [OF assms, of "nstreams w"] by (simp add: w1)
    then have later: "items (run_events w1 es) (nstreams w) = items w1 (nstreams w)"
      by (rule run_events_pushed_elsewhere)
    have "procs w1 = procs w @ [new_child st w [StdinEnd]]
          \<and> procs (run_events w1 es) = procs w1
          \<and> items w1 (nstreams w) = [nfiles w]
          \<and> heap w1 (nfiles w) = \<lparr>contents = CStream (ChildStdout k), path = s_cmd st\<rparr>"
      using old_pushed [of "nstreams w"] by (simp add: run_events_procs_same w1 items_def)
    then show ?thesis
      using d later False by (simp add: Let_def x k_def [symmetric] w1_def [symmetric])
  next
    case True
    define w1 where "w1 = fst (exec st w True)"
    have w1: "w1 = w\<lparr>procs := procs w @ [new_child st w [StdinEnd]],
        pipes := pipes w @ [(k, TeeStream (nstreams w) (s_cmd st))],
        heap := (heap w)(nfiles w := \<lparr>contents = CStream (TeeStream (nstreams w) (s_cmd st)),
                                      path = s_cmd st\<rparr>),
        nfiles := Suc (nfiles w),
        nstreams := Suc (Suc (nstreams w)),
        pushed := pushed w @ [(Suc (nstreams w), nfiles w)],
        ticks := ticks w @ [StreamCallback]\<rparr>"
      by (simp add: w1_def exec_print k_def)
    have x: "snd (exec st w True) = Suc (nstreams w)"
      by (simp add: exec_print)
    have "map snd (filter (\<lambda>p. fst p = k) (pipes w1)) = [TeeStream (nstreams w) (s_cmd st)]"
      using old_pipes by (simp add: w1)
    from run_data_tee [OF this, of chunks]
    have out: "child_out (run_events w1 (map (Data k) chunks)) = child_out w @ map (Pair k) chunks"
      and tout: "tee_out (run_events w1 (map (Data k) chunks))
                   = tee_out w @ map (Pair (nstreams w)) chunks"
      by (simp_all add: w1)
    have d: "delivered (run_events w1 (map (Data k) chunks)) (ChildStdout k) = chunks"
      using old_out by (simp add: out comp_def)
    have dt: "delivered (run_events w1 (map (Data k) chunks)) (TeeStream (nstreams w) (s_cmd st))
                = chunks"
      using old_tee by (simp add: tout comp_def)
    have "list_all (\<lambda>l. handler_stream_below (Suc (nstreams w)) (snd (snd l))) (listeners w1)"
      using wf_handlers_below [OF assms, of "Suc (nstreams w)"] by (simp add: w1)
    then have later: "items (run_events w1 es) (Suc (nstreams w)) = items w1 (Suc (nstreams w))"
      by (rule run_events_pushed_elsewhere)
    have "procs w1 = procs w @ [new_child st w [StdinEnd]]
          \<and> procs (run_events w1 es) = procs w1
          \<and> items w1 (Suc (nstreams w)) = [nfiles w]
          \<and> heap w1 (nfiles w)
              = \<lparr>contents = CStream (TeeStream (nstreams w) (s_cmd st)), path = s_cmd st\<rparr>"
      using old_pushed [of "Suc (nstreams w)"] by (simp add: run_events_procs_same w1 items_def)
    then show ?thesis
      using d dt later True by (simp add: Let_def x k_def [symmetric] w1_def [symmetric])
  qed
qed


theorem exec_spawns_one_child_one_file_witness:
  "wf_world world0
   \<and> procs (fst (exec stage0 world0 True))
       = [\<lparr>c_cmd = ''awk'', c_args = [''NR % 2 == 0''], c_env = [''PATH'' \<mapsto> ''/usr/bin''],
           c_stdin = [StdinEnd]\<rparr>]
   \<and> items (fst (exec stage0 world0 True)) (snd (exec stage0 world0 True)) = [4]
   \<and> items (run_events (fst (exec stage0 world0 True)) [Tick, End 0]) (snd (exec stage0 world0 True))
       = [4]
   \<and> heap (fst (exec stage0 world0 True)) 4
       = \<lparr>contents = CStream (TeeStream 1 ''awk''), path = ''awk''\<rparr>
   \<and> delivered (run_events (fst (exec stage0 world0 True)) [Data 0 ''2\<newline>'', Data 0 ''4\<newline>''])
         (TeeStream 1 ''awk'') = [''2\<newline>'', ''4\<newline>'']"
  using exec_spawns_one_child_one_file [OF wf_world0, where print = True and st = stage0
      and es = "[Tick, End 0]" and chunks = "[''2\<newline>'', ''4\<newline>'']"]
    wf_world0
  by (auto simp add: Let_def world0_fields stage0_fields new_child_def)




lemma command_of_seq: "command_of parse ''seq 2'' = Inr (''seq'', [''2''])"
  by code_simp

lemma command_of_echo:
  "command_of parse ''echo Hello World'' = Inr (''echo'', [''Hello'', ''World''])"
  by code_simp

lemma run_seq: "run parse world0 ''seq 2'' = Inr (world1, stage_seq)"
proof -
  have c: "command_of parse ''seq 2'' = Inr (''seq'', [''2''])"
    by (rule command_of_seq)
  have "(envs world0 0)(''PATH'' \<mapsto> ''./node_modules/.bin:/usr/bin'')
          = [''PATH'' \<mapsto> ''./node_modules/.bin:/usr/bin'']"
    by (simp add: world0_fields)
  then show ?thesis
    by (simp add: run_def c new_transform_def world0_fields js_str_def world1_def stage_seq_def)
qed

lemma run_echo: "run parse world0 ''echo Hello World'' = Inr (world1, stage_echo)"
proof -
  have c: "command_of parse ''echo Hello World'' = Inr (''echo'', [''Hello'', ''World''])"
    by (rule command_of_echo)
  have "(envs world0 0)(''PATH'' \<mapsto> ''./node_modules/.bin:/usr/bin'')
          = [''PATH'' \<mapsto> ''./node_modules/.bin:/usr/bin'']"
    by (simp add: world0_fields)
  then show ?thesis
    by (simp add: run_def c new_transform_def world0_fields js_str_def world1_def stage_echo_def)
qed

lemma world1_fields:
  "procs world1 = []" "listeners world1 = []" "pipes world1 = []" "pushed world1 = []"
  "ticks world1 = []" "done_log world1 = []" "child_out world1 = []" "tee_out world1 = []"
  "parent_stdout world1 = []" "stage_errors world1 = []" "uncaught world1 = []"
  "nfiles world1 = 4" "nstreams world1 = 2" "process_env world1 = 0"
  "envs world1 0 = [''PATH'' \<mapsto> ''./node_modules/.bin:/usr/bin'']"
  "heap world1 = heap world0"
  by (simp_all add: world1_def world0_fields)

lemma tee_output:
  "parent_stdout (run_events (fst (exec st world1 True)) (map (Data 0) chunks))
     = concat (map (\<lambda>c. ''['' @ s_cmd st @ ''] '' @ to_string c) chunks)"
proof -
  have "map snd (filter (\<lambda>p. fst p = 0) (pipes (fst (exec st world1 True))))
          = [TeeStream 2 (s_cmd st)]"
    by (simp add: exec_print world1_fields)
  from run_data_tee [OF this, of chunks] show ?thesis
    by (simp add: exec_print world1_fields)
qed

text \<open>
  C5 (evaluation of the code where the claim fails). The claim is that with
  \<^verbatim>\<open>print\<close> every line of the child's output is echoed with the program in brackets
  before it. The tee writes the prefix once for every chunk it receives. For
  \<^verbatim>\<open>run('seq 2').exec(true)\<close>, when the child's output arrives as the one chunk
  \<^verbatim>\<open>1\n2\n\<close>, the parent's stdout receives \<^verbatim>\<open>[seq] 1\n2\n\<close>, where every line prefixed
  is \<^verbatim>\<open>[seq] 1\n[seq] 2\n\<close>. For \<^verbatim>\<open>run('echo Hello World').exec(true)\<close> the echo is
  \<^verbatim>\<open>[echo] Hello World\n\<close> when the line arrives as one chunk, and has a second prefix
  inside the line when it arrives as two.
\<close>

theorem tee_prefixes_each_chunk:
  "run parse world0 ''seq 2'' = Inr (world1, stage_seq)
   \<and> parent_stdout (run_events (fst (exec stage_seq world1 True)) [Data 0 ''1\<newline>2\<newline>''])
       = ''[seq] 1\<newline>2\<newline>''
   \<and> prefix_lines ''seq'' ''1\<newline>2\<newline>'' = ''[seq] 1\<newline>[seq] 2\<newline>''
   \<and> run parse world0 ''echo Hello World'' = Inr (world1, stage_echo)
   \<and> parent_stdout (run_events (fst (exec stage_echo world1 True)) [Data 0 ''Hello World\<newline>''])
       = ''[echo] Hello World\<newline>''
   \<and> parent_stdout (run_events (fst (exec stage_echo world1 True)) [Data 0 ''Hello '', Data 0 ''World\<newline>''])
       = ''[echo] Hello [echo] World\<newline>''"
proof -
  have "parent_stdout (run_events (fst (exec stage_seq world1 True)) [Data 0 ''1\<newline>2\<newline>''])
       = ''[seq] 1\<newline>2\<newline>''"
    using tee_output [of stage_seq "[''1\<newline>2\<newline>'']"]
    by (simp add: stage_seq_def to_string_samples)
  moreover have "prefix_lines ''seq'' ''1\<newline>2\<newline>'' = ''[seq] 1\<newline>[seq] 2\<newline>''"
    by (simp add: prefix_lines_def)
  moreover have "parent_stdout (run_events (fst (exec stage_echo world1 True)) [Data 0 ''Hello World\<newline>''])
       = ''[echo] Hello World\<newline>''"
    using tee_output [of stage_echo "[''Hello World\<newline>'']"]
    by (simp add: stage_echo_def to_string_samples)
  moreover have "parent_stdout (run_events (fst (exec stage_echo world1 True)) [Data 0 ''Hello '', Data 0 ''World\<newline>''])
       = ''[echo] Hello [echo] World\<newline>''"
    using tee_output [of stage_echo "[''Hello '', ''World\<newline>'']"]
    by (simp add: stage_echo_def to_string_samples)
  ultimately show ?thesis
    using run_seq run_echo by simp
qed


lemma transform_adds_no_error_listener:
  "handlers_of (transform st w file d) (ChildProc k) ev = handlers_of w (ChildProc k) ev
   \<and> stage_errors (transform st w file d) = stage_errors w"
proof (cases "contents (heap w file)")
  case CNull
  then have "isNull (heap w file)" by (simp add: isNull_def)
  then show ?thesis by (simp add: transform_null handlers_of_def)
next
  case (CBuffer b)
  then show ?thesis by (simp add: transform_buffer handlers_of_def)
next
  case (CStream s)
  then show ?thesis by (simp add: transform_stream handlers_of_def)
next
  case (COther x)
  then show ?thesis by (simp add: transform_other handlers_of_def)
qed

lemma exec_adds_no_error_listener:
  "handlers_of (fst (exec st w print)) (ChildProc k) ev = handlers_of w (ChildProc k) ev
   \<and> stage_errors (fst (exec st w print)) = stage_errors w"
  by (cases print) (simp_all add: exec_plain exec_print handlers_of_def)

lemma child_error_uncaught:
  assumes "handlers_of w1 (ChildProc k) EvError = []"
  shows "deliver (run_events w1 es) (ChildError k e)
           = (run_events w1 es)\<lparr>uncaught := uncaught (run_events w1 es) @ [e]\<rparr>
         \<and> stage_errors (deliver (run_events w1 es) (ChildError k e)) = stage_errors w1"
proof -
  have "handlers_of (run_events w1 es) (ChildProc k) EvError = handlers_of w1 (ChildProc k) EvError"
    using run_events_keeps [of w1 es] handlers_of_listeners [of "run_events w1 es" w1] by simp
  then have "handlers_of (run_events w1 es) (ChildProc k) EvError = []"
    using assms by simp
  then show ?thesis
    using run_events_keeps [of w1 es] by simp
qed

text \<open>
  C9, as amended. Neither the transform nor \<^verbatim>\<open>exec\<close> registers an \<^verbatim>\<open>error\<close> listener on
  the child. So when a child fails to spawn, whatever events came before, its \<^verbatim>\<open>error\<close>
  event finds no listener and is thrown by the emitter as an uncaught exception, and
  nothing is emitted on the stage's error channel.
\<close>

theorem spawn_failure_is_unhandled:
  assumes "handlers_of w (ChildProc k) EvError = []"
  shows "let w1 = transform st w file d;
             w2 = run_events w1 es;
             w3 = deliver w2 (ChildError k e);
             v1 = fst (exec st w print);
             v2 = run_events v1 es;
             v3 = deliver v2 (ChildError k e)
         in handlers_of w1 (ChildProc k) EvError = []
          \<and> w3 = w2\<lparr>uncaught := uncaught w2 @ [e]\<rparr>
          \<and> stage_errors w3 = stage_errors w
          \<and> handlers_of v1 (ChildProc k) EvError = []
          \<and> v3 = v2\<lparr>uncaught := uncaught v2 @ [e]\<rparr>
          \<and> stage_errors v3 = stage_errors w"
proof -
  let ?w1 = "transform st w file d" and ?v1 = "fst (exec st w print)"
  have t: "handlers_of ?w1 (ChildProc k) EvError = []"
    using assms transform_adds_no_error_listener [of st w "file" d k EvError] by simp
  have x: "handlers_of ?v1 (ChildProc k) EvError = []"
    using assms exec_adds_no_error_listener [of st w print k EvError] by simp
  have ts: "stage_errors ?w1 = stage_errors w"
    using transform_adds_no_error_listener [of st w "file" d k EvError] by simp
  have xs: "stage_errors ?v1 = stage_errors w"
    using exec_adds_no_error_listener [of st w print k EvError] by simp
  note a = child_error_uncaught [OF t, of es e] and b = child_error_uncaught [OF x, of es e]
  show ?thesis
    unfolding Let_def
  proof (intro conjI)
    show "handlers_of ?w1 (ChildProc k) EvError = []" by (rule t)
    show "handlers_of ?v1 (ChildProc k) EvError = []" by (rule x)
    show "deliver (run_events ?w1 es) (ChildError k e)
            = (run_events ?w1 es)\<lparr>uncaught := uncaught (run_events ?w1 es) @ [e]\<rparr>"
      using a by (rule conjunct1)
    show "deliver (run_events ?v1 es) (ChildError k e)
            = (run_events ?v1 es)\<lparr>uncaught := uncaught (run_events ?v1 es) @ [e]\<rparr>"
      using b by (rule conjunct1)
    show "stage_errors (deliver (run_events ?w1 es) (ChildError k e)) = stage_errors w"
      using a [THEN conjunct2] by (simp only: ts)
    show "stage_errors (deliver (run_events ?v1 es) (ChildError k e)) = stage_errors w"
      using b [THEN conjunct2] by (simp only: xs)
  qed
qed

theorem spawn_failure_is_unhandled_witness:
  "handlers_of world0 (ChildProc 0) EvError = []
   \<and> uncaught (deliver (run_events (transform stage0 world0 1 7) [Readable 0 None])
        (ChildError 0 ''spawn awk ENOENT'')) = [''spawn awk ENOENT'']
   \<and> stage_errors (deliver (run_events (transform stage0 world0 1 7) [Readable 0 None])
        (ChildError 0 ''spawn awk ENOENT'')) = []
   \<and> stage_errors (deliver (run_events (fst (exec stage0 world0 False)) [Readable 0 None])
        (ChildError 0 ''spawn awk ENOENT'')) = []"
proof -
  have h: "handlers_of world0 (ChildProc 0) EvError = []"
    by (simp add: handlers_of_def world0_fields)
  have u: "uncaught (run_events (transform stage0 world0 1 7) [Readable 0 None]) = []"
    using transform_buffer [OF world0_files(2), of stage0 7]
    by (simp add: run_events_def emit_def handlers_of_def world0_fields)
  show ?thesis
    using spawn_failure_is_unhandled [OF h, of stage0 1 7 "[Readable 0 None]"
        "''spawn awk ENOENT''" False] h u
    by (auto simp add: Let_def world0_fields)
qed

text \<open>
  C9 as stated fails: after the transform of the sample buffer file, a spawn failure of the
  child leaves the stage's error channel empty; the error is an uncaught exception, and
  the item is neither forwarded nor completed.
\<close>

theorem spawn_failure_not_on_stage:
  "stage_errors (deliver (transform stage0 world0 1 7) (ChildError 0 ''spawn awk ENOENT'')) = []
   \<and> uncaught (deliver (transform stage0 world0 1 7) (ChildError 0 ''spawn awk ENOENT''))
       = [''spawn awk ENOENT'']
   \<and> pushed (deliver (transform stage0 world0 1 7) (ChildError 0 ''spawn awk ENOENT'')) = []
   \<and> ticks (deliver (transform stage0 world0 1 7) (ChildError 0 ''spawn awk ENOENT'')) = []"
  using transform_buffer [OF world0_files(2), of stage0 7]
  by (simp add: handlers_of_def world0_fields)

lemma run_result:
  assumes "run parser w command = Inr (w', st)"
  shows "s_env st = process_env w \<and> process_env w' = process_env w
         \<and> envs w' = (envs w)(process_env w := (envs w (process_env w))(''PATH'' \<mapsto>
              ''./node_modules/.bin:'' @ js_str (envs w (process_env w) ''PATH'')))"
proof (cases "command_of parser command")
  case (Inl e)
  with assms show ?thesis by (simp add: run_def)
next
  case (Inr ca)
  obtain cmd args where ca: "ca = (cmd, args)" by (cases ca)
  from assms show ?thesis
    by (auto simp: run_def Inr ca new_transform_def Let_def)
qed

text \<open>
  C7, as amended. The stage's environment is the process-wide environment object itself,
  not a copy: constructing a command prepends \<^verbatim>\<open>./node_modules/.bin:\<close> to \<^verbatim>\<open>PATH\<close> in that
  object in place, and every child the stage later spawns, by the transform or by
  \<^verbatim>\<open>exec\<close>, gets the contents of that shared object at the time of the spawn.
\<close>

theorem run_prepends_path_in_place:
  "run parser w command = Inr (w', st) \<Longrightarrow>
     s_env st = process_env w \<and> process_env w' = process_env w
   \<and> envs w' = (envs w)(process_env w := (envs w (process_env w))(''PATH'' \<mapsto>
        ''./node_modules/.bin:'' @ js_str (envs w (process_env w) ''PATH'')))
   \<and> (\<not> isNull (heap v file) \<longrightarrow>
        c_env (last (procs (transform st v file d))) = envs v (process_env w))
   \<and> c_env (last (procs (fst (exec st v print)))) = envs v (process_env w)"
proof -
  assume r: "run parser w command = Inr (w', st)"
  note res = run_result [OF r]
  have "c_env (last (procs (transform st v file d))) = envs v (process_env w)"
    if "\<not> isNull (heap v file)"
    using transform_procs [OF that, of st d] res by (simp add: new_child_def)
  moreover have "c_env (last (procs (fst (exec st v print)))) = envs v (process_env w)"
    using res by (cases print) (simp_all add: exec_plain exec_print new_child_def)
  ultimately show ?thesis
    using res by blast
qed

theorem run_prepends_path_in_place_witness:
  "run parse world0 ''seq 2'' = Inr (world1, stage_seq)
   \<and> s_env stage_seq = process_env world0
   \<and> envs world1 (process_env world0) ''PATH'' = Some ''./node_modules/.bin:/usr/bin''
   \<and> \<not> isNull (heap world1 1)
   \<and> c_env (last (procs (transform stage_seq world1 1 7))) ''PATH''
       = Some ''./node_modules/.bin:/usr/bin''
   \<and> c_env (last (procs (fst (exec stage_seq world1 True)))) ''PATH''
       = Some ''./node_modules/.bin:/usr/bin''"
proof -
  have n: "\<not> isNull (heap world1 1)"
    using world0_files(2) by (simp add: world1_fields isNull_def)
  show ?thesis
    using run_prepends_path_in_place [OF run_seq, of world1 1 7 True] run_seq n
    by (auto simp add: world0_fields world1_fields js_str_def)
qed

text \<open>
  C7 as stated fails: constructing the command \<^verbatim>\<open>seq 2\<close> changes the process-wide
  environment map (its \<^verbatim>\<open>PATH\<close> is \<^verbatim>\<open>/usr/bin\<close> before and
  \<^verbatim>\<open>./node_modules/.bin:/usr/bin\<close> after), and a second construction prepends the
  directory a second time.
\<close>

theorem run_mutates_process_env:
  "run parse world0 ''seq 2'' = Inr (world1, stage_seq)
   \<and> envs world0 (process_env world0) ''PATH'' = Some ''/usr/bin''
   \<and> envs world1 (process_env world0) ''PATH'' = Some ''./node_modules/.bin:/usr/bin''
   \<and> envs world1 (process_env world0) \<noteq> envs world0 (process_env world0)
   \<and> envs (fst (projr (run parse world1 ''seq 2''))) (process_env world0) ''PATH''
       = Some ''./node_modules/.bin:./node_modules/.bin:/usr/bin''"
proof -
  have a: "envs world0 (process_env world0) ''PATH'' = Some ''/usr/bin''"
    and b: "envs world1 (process_env world0) ''PATH'' = Some ''./node_modules/.bin:/usr/bin''"
    by (simp_all add: world0_fields world1_fields)
  have ne: "envs world1 (process_env world0) \<noteq> envs world0 (process_env world0)"
  proof
    assume "envs world1 (process_env world0) = envs world0 (process_env world0)"
    then have "envs world1 (process_env world0) ''PATH'' = envs world0 (process_env world0) ''PATH''"
      by simp
    with a b show False by simp
  qed
  have c: "command_of parse ''seq 2'' = Inr (''seq'', [''2''])"
    by (rule command_of_seq)
  have "envs (fst (projr (run parse world1 ''seq 2''))) (process_env world0) ''PATH''
       = Some ''./node_modules/.bin:./node_modules/.bin:/usr/bin''"
    by (simp add: run_def c new_transform_def world1_fields world0_fields js_str_def)
  then show ?thesis
    using run_seq a b ne by simp
qed

section \<open>Well-formed worlds\<close>

text \<open>
  Well-formedness is an invariant: the sample world has it, and constructing a command, the
  transform of a stage that has been constructed, \<^verbatim>\<open>exec\<close> and the delivery of an event of
  a spawned child all keep it. So the worlds the stage can be in are well formed.
\<close>

lemma wf_world_I:
  assumes "list_all (\<lambda>l. emitter_child (fst l) < length (procs w)
                   \<and> handler_stream_below (nstreams w) (snd (snd l))) (listeners w)"
      and "list_all (\<lambda>p. fst p < length (procs w) \<and> stream_below (nstreams w) (snd p)) (pipes w)"
      and "list_all (\<lambda>p. fst p < length (procs w)) (child_out w)"
      and "list_all (\<lambda>p. fst p < nstreams w) (tee_out w)"
      and "list_all (\<lambda>p. fst p < nstreams w) (pushed w)"
  shows "wf_world w"
  using assms by (simp add: wf_world_def)

lemma stream_below_mono: "stream_below n s \<Longrightarrow> n \<le> m \<Longrightarrow> stream_below m s"
  by (cases s) simp_all

lemma wf_world_grow:
  assumes "wf_world w"
      and "length (procs w) \<le> length (procs v)" "nstreams w \<le> nstreams v"
      and "listeners v = listeners w" "pipes v = pipes w" "child_out v = child_out w"
          "tee_out v = tee_out w" "pushed v = pushed w"
  shows "wf_world v"
proof (rule wf_world_I)
  show "list_all (\<lambda>l. emitter_child (fst l) < length (procs v)
                   \<and> handler_stream_below (nstreams v) (snd (snd l))) (listeners v)"
    using assms by (auto simp: wf_world_def list_all_iff intro: handler_stream_below_mono)
  show "list_all (\<lambda>p. fst p < length (procs v) \<and> stream_below (nstreams v) (snd p)) (pipes v)"
    using assms by (auto simp: wf_world_def list_all_iff intro: stream_below_mono)
  show "list_all (\<lambda>p. fst p < length (procs v)) (child_out v)"
    using assms by (auto simp: wf_world_def list_all_iff)
  show "list_all (\<lambda>p. fst p < nstreams v) (tee_out v)"
    using assms by (auto simp: wf_world_def list_all_iff)
  show "list_all (\<lambda>p. fst p < nstreams v) (pushed v)"
    using assms by (auto simp: wf_world_def list_all_iff)
qed

lemma wf_world_add:
  assumes "wf_world v"
      and "list_all (\<lambda>l. emitter_child (fst l) < length (procs v)
                   \<and> handler_stream_below (nstreams v) (snd (snd l))) ls"
      and "list_all (\<lambda>p. fst p < length (procs v) \<and> stream_below (nstreams v) (snd p)) ps"
      and "list_all (\<lambda>p. fst p < length (procs v)) cs"
      and "list_all (\<lambda>p. fst p < nstreams v) ts"
      and "list_all (\<lambda>p. fst p < nstreams v) qs"
      and "length (procs u) = length (procs v)" "nstreams u = nstreams v"
      and "listeners u = listeners v @ ls" "pipes u = pipes v @ ps"
          "child_out u = child_out v @ cs" "tee_out u = tee_out v @ ts"
          "pushed u = pushed v @ qs"
  shows "wf_world u"
  using assms by (simp add: wf_world_def)

lemma wf_transform:
  assumes "wf_world w" "s_id st < nstreams w"
  shows "wf_world (transform st w file d)"
proof -
  let ?v = "w\<lparr>procs := procs w @ [new_child st w (vinyl_pipe file (contents (heap w file)))]\<rparr>"
  have v: "wf_world ?v"
    by (rule wf_world_grow [OF assms(1)]) simp_all
  show ?thesis
  proof (cases "contents (heap w file)")
    case CNull
    then have "isNull (heap w file)" by (simp add: isNull_def)
    then have t: "transform st w file d
        = w\<lparr>pushed := pushed w @ [(s_id st, file)], ticks := ticks w @ [Done d]\<rparr>"
      by (rule transform_null)
    show ?thesis
      by (rule wf_world_add [OF assms(1), where ls = "[]" and ps = "[]" and cs = "[]"
            and ts = "[]" and qs = "[(s_id st, file)]"])
         (simp_all add: t assms(2))
  next
    case (CBuffer b)
    show ?thesis
      by (rule wf_world_add [OF v, where ps = "[]" and cs = "[]" and ts = "[]" and qs = "[]"
            and ls = "[(Stdout (length (procs w)), EvReadable, OnReadable file),
                      (Stdout (length (procs w)), EvEnd, OnEnd (s_id st) file d)]"])
         (simp_all add: transform_buffer [OF CBuffer] assms(2))
  next
    case (CStream s)
    show ?thesis
      by (rule wf_world_add [OF v, where ls = "[]" and ps = "[]" and cs = "[]"
            and ts = "[]" and qs = "[(s_id st, file)]"])
         (simp_all add: transform_stream [OF CStream] assms(2))
  next
    case (COther x)
    show ?thesis
      using v by (simp add: transform_other [OF COther] COther)
  qed
qed

lemma wf_exec:
  assumes "wf_world w"
  shows "wf_world (fst (exec st w print))"
proof (cases print)
  case False
  let ?v = "w\<lparr>procs := procs w @ [new_child st w [StdinEnd]], nstreams := Suc (nstreams w)\<rparr>"
  have v: "wf_world ?v"
    by (rule wf_world_grow [OF assms]) simp_all
  show ?thesis
    by (rule wf_world_add [OF v, where ls = "[]" and ps = "[]" and cs = "[]"
          and ts = "[]" and qs = "[(nstreams w, nfiles w)]"])
       (simp_all add: False exec_plain)
next
  case True
  let ?v = "w\<lparr>procs := procs w @ [new_child st w [StdinEnd]], nstreams := Suc (Suc (nstreams w))\<rparr>"
  have v: "wf_world ?v"
    by (rule wf_world_grow [OF assms]) simp_all
  show ?thesis
    by (rule wf_world_add [OF v, where ls = "[]" and cs = "[]" and ts = "[]"
          and ps = "[(length (procs w), TeeStream (nstreams w) (s_cmd st))]"
          and qs = "[(Suc (nstreams w), nfiles w)]"])
       (simp_all add: True exec_print)
qed

lemma wf_run:
  assumes "wf_world w" "run parser w command = Inr (w', st)"
  shows "wf_world w' \<and> s_id st < nstreams w'"
proof (cases "command_of parser command")
  case (Inl e)
  with assms(2) show ?thesis by (simp add: run_def)
next
  case (Inr ca)
  obtain cmd args where ca: "ca = (cmd, args)" by (cases ca)
  from assms(2) have w': "nstreams w' = Suc (nstreams w)" "procs w' = procs w"
    "listeners w' = listeners w" "pipes w' = pipes w" "child_out w' = child_out w"
    "tee_out w' = tee_out w" "pushed w' = pushed w" and st: "s_id st = nstreams w"
    by (auto simp: run_def Inr ca new_transform_def Let_def)
  have "wf_world w'"
    by (rule wf_world_grow [OF assms(1)]) (simp_all add: w')
  then show ?thesis
    by (simp add: w' st)
qed


lemma wf_world_same:
  assumes "wf_world v"
      and "procs u = procs v" "nstreams u = nstreams v" "listeners u = listeners v"
          "pipes u = pipes v" "child_out u = child_out v" "tee_out u = tee_out v"
          "pushed u = pushed v"
  shows "wf_world u"
  using assms by (simp add: wf_world_def)

lemma handle_wf:
  assumes "wf_world v" "handler_stream_below (nstreams v) h"
  shows "wf_world (handle h a v) \<and> nstreams (handle h a v) = nstreams v"
proof (cases h)
  case (OnReadable f)
  show ?thesis
  proof (cases a)
    case None
    then show ?thesis using assms(1) by (simp add: OnReadable)
  next
    case (Some c)
    have "wf_world (handle h a v)"
      by (rule wf_world_same [OF assms(1)])
         (cases "contents (heap v f)"; simp add: OnReadable Some set_contents_def)+
    moreover have "nstreams (handle h a v) = nstreams v"
      by (cases "contents (heap v f)") (simp_all add: OnReadable Some set_contents_def)
    ultimately show ?thesis by simp
  qed
next
  case (OnEnd s f d)
  have "wf_world (handle h a v)"
    by (rule wf_world_add [OF assms(1), where ls = "[]" and ps = "[]" and cs = "[]"
          and ts = "[]" and qs = "[(s, f)]"])
       (use assms(2) in \<open>simp_all add: OnEnd push_def next_tick_def\<close>)
  then show ?thesis
    by (simp add: OnEnd push_def next_tick_def)
qed

lemma handles_wf:
  assumes "wf_world v" "list_all (handler_stream_below (nstreams v)) hs"
  shows "wf_world (foldl (\<lambda>w' h. handle h a w') v hs)"
  using assms
proof (induction hs arbitrary: v)
  case Nil
  then show ?case by simp
next
  case (Cons h hs)
  have h: "handler_stream_below (nstreams v) h"
    and hs: "list_all (handler_stream_below (nstreams v)) hs"
    using Cons.prems(2) by simp_all
  note step = handle_wf [OF Cons.prems(1) h, of a]
  have "list_all (handler_stream_below (nstreams (handle h a v))) hs"
    using hs step by simp
  from Cons.IH [OF _ this] step show ?case by simp
qed

lemma emit_wf:
  assumes "wf_world v"
  shows "wf_world (emit v m ev a)"
proof -
  have "list_all (handler_stream_below (nstreams v)) (handlers_of v m ev)"
    using assms by (auto simp: wf_world_def handlers_of_def list_all_iff)
  from handles_wf [OF assms this] show ?thesis
    by (simp add: emit_def)
qed

lemma stream_write_wf:
  assumes "wf_world v" "stream_below (nstreams v) s"
  shows "wf_world (stream_write s c v) \<and> nstreams (stream_write s c v) = nstreams v"
proof (cases s)
  case (TeeStream i title)
  have "wf_world (stream_write s c v)"
    by (rule wf_world_add [OF assms(1), where ls = "[]" and ps = "[]" and cs = "[]"
          and ts = "[(i, c)]" and qs = "[]"])
       (use assms(2) in \<open>simp_all add: TeeStream tee_transform_def next_tick_def\<close>)
  then show ?thesis
    by (simp add: TeeStream tee_transform_def next_tick_def)
next
  case (ChildStdout k)
  then show ?thesis using assms(1) by simp
next
  case (CallerStream n)
  then show ?thesis using assms(1) by simp
qed

lemma writes_wf:
  assumes "wf_world v" "list_all (stream_below (nstreams v)) ds"
  shows "wf_world (foldl (\<lambda>w' dest. stream_write dest c w') v ds)"
  using assms
proof (induction ds arbitrary: v)
  case Nil
  then show ?case by simp
next
  case (Cons d ds)
  have d: "stream_below (nstreams v) d" and ds: "list_all (stream_below (nstreams v)) ds"
    using Cons.prems(2) by simp_all
  note step = stream_write_wf [OF Cons.prems(1) d, of c]
  have "list_all (stream_below (nstreams (stream_write d c v))) ds"
    using ds step by simp
  from Cons.IH [OF _ this] step show ?case by simp
qed

lemma wf_deliver:
  assumes "wf_world w" "event_ok w e"
  shows "wf_world (deliver w e)"
proof (cases e)
  case (Readable k chunk)
  show ?thesis
  proof (cases chunk)
    case None
    then show ?thesis using emit_wf [OF assms(1)] by (simp add: Readable)
  next
    case (Some c)
    have "wf_world (w\<lparr>child_out := child_out w @ [(k, c)]\<rparr>)"
      by (rule wf_world_add [OF assms(1), where ls = "[]" and ps = "[]" and cs = "[(k, c)]"
            and ts = "[]" and qs = "[]"])
         (use assms(2) in \<open>simp_all add: Readable\<close>)
    from emit_wf [OF this] show ?thesis by (simp add: Readable Some)
  qed
next
  case (End k)
  then show ?thesis using emit_wf [OF assms(1)] by simp
next
  case (Data k chunk)
  let ?v = "w\<lparr>child_out := child_out w @ [(k, chunk)]\<rparr>"
  have v: "wf_world ?v"
    by (rule wf_world_add [OF assms(1), where ls = "[]" and ps = "[]" and cs = "[(k, chunk)]"
          and ts = "[]" and qs = "[]"])
       (use assms(2) in \<open>simp_all add: Data\<close>)
  have "list_all (stream_below (nstreams ?v)) (map snd (filter (\<lambda>p. fst p = k) (pipes w)))"
    using assms(1) by (auto simp: wf_world_def list_all_iff)
  from writes_wf [OF v this] show ?thesis by (simp add: Data)
next
  case (ChildError k err)
  have "wf_world (w\<lparr>uncaught := uncaught w @ [err]\<rparr>)"
    by (rule wf_world_same [OF assms(1)]) simp_all
  then show ?thesis using emit_wf [OF assms(1)] by (simp add: ChildError)
next
  case Tick
  show ?thesis
  proof (cases "ticks w")
    case Nil
    then show ?thesis using assms(1) by (simp add: Tick)
  next
    case (Cons cb rest)
    have "wf_world (call cb (w\<lparr>ticks := rest\<rparr>))"
      by (rule wf_world_same [OF assms(1)]) (cases cb; simp)+
    then show ?thesis by (simp add: Tick Cons)
  qed
qed

end
